theory Spec2Isabelle
  imports Main "HOL-Library.Word"
begin

unbundle bit_operations_syntax

section \<open>The stub DNS resolver of libmobile (dns.c)\<close>

text \<open>
  A shallow embedding of the resolver: \<^verbatim>\<open>dns_make_name\<close>, \<^verbatim>\<open>dns_compare_name\<close>,
  \<^verbatim>\<open>dns_make_query\<close>, \<^verbatim>\<open>dns_verify_response\<close>, \<^verbatim>\<open>dns_get_answer\<close>,
  \<^verbatim>\<open>mobile_dns_query_send\<close> and \<^verbatim>\<open>mobile_dns_query_recv\<close>.

  Bytes are \<open>8 word\<close>. Offsets and lengths (\<^verbatim>\<open>unsigned\<close> in C) are \<open>nat\<close>: every offset the
  code computes is at most the buffer length plus \<open>10 + 65535\<close>, far from \<open>2 ^ 32\<close>.
  Return codes (\<^verbatim>\<open>int\<close> in C) are \<open>int\<close>. A function that may loop forever returns
  \<open>option\<close>: \<open>None\<close> is "does not return".
\<close>

type_synonym u8 = "8 word"
type_synonym u16 = "16 word"

subsection \<open>Constants and data\<close>

definition DNS_HEADER_SIZE :: nat where "DNS_HEADER_SIZE = 12"
definition DNS_QD_SIZE :: nat where "DNS_QD_SIZE = 4"
definition DNS_RR_SIZE :: nat where "DNS_RR_SIZE = 10"
definition DNS_PORT :: nat where "DNS_PORT = 53"

datatype dns_qtype = DNS_QTYPE_A | DNS_QTYPE_AAAA

fun qtype_val :: "dns_qtype \<Rightarrow> u16" where
  "qtype_val DNS_QTYPE_A = 1"
| "qtype_val DNS_QTYPE_AAAA = 28"

text \<open>
  Modelled from the spec: \<^verbatim>\<open>struct mobile_adapter_dns\<close> is declared in dns.h, which is not
  among the sources. The spec's data model gives its fields: a 16-bit transaction \<open>id\<close>, the
  requested record \<open>type\<close>, the wire-encoded \<open>name\<close> with \<open>name_len\<close>, and the shared
  wire \<open>buffer\<close> with \<open>buffer_len\<close>. The two arrays are lists whose length is the array's
  capacity, so \<^verbatim>\<open>MOBILE_DNS_MAX_NAME_SIZE\<close> is \<open>length (name s)\<close> and
  \<^verbatim>\<open>MOBILE_DNS_PACKET_SIZE\<close> is \<open>length (buffer s)\<close> (the values of the two macros are
  not in the sources either).
\<close>

record mobile_adapter_dns =
  dns_id :: u16
  dns_type :: dns_qtype
  name :: "u8 list"
  name_len :: nat
  buffer :: "u8 list"
  buffer_len :: nat

definition MOBILE_DNS_MAX_NAME_SIZE :: "mobile_adapter_dns \<Rightarrow> nat" where
  "MOBILE_DNS_MAX_NAME_SIZE s = length (name s)"

definition MOBILE_DNS_PACKET_SIZE :: "mobile_adapter_dns \<Rightarrow> nat" where
  "MOBILE_DNS_PACKET_SIZE s = length (buffer s)"

text \<open>
  Modelled from the spec: \<^verbatim>\<open>struct mobile_addr\<close> and \<^verbatim>\<open>struct mobile_addr4\<close> are declared
  in mobile.h, which is not among the sources: an address is its type, its port and its host
  bytes. \<^verbatim>\<open>struct mobile_adapter\<close> is reduced to what the resolver touches: its DNS state and
  the configured resolver host \<^verbatim>\<open>commands.dns1\<close> (4 bytes).
\<close>

datatype mobile_addrtype = MOBILE_ADDRTYPE_NONE | MOBILE_ADDRTYPE_IPV4 | MOBILE_ADDRTYPE_IPV6

record mobile_addr =
  addr_type :: mobile_addrtype
  addr_port :: nat
  addr_host :: "u8 list"

record mobile_adapter =
  dns :: mobile_adapter_dns
  dns1 :: "u8 list"

text \<open>Big-endian 16-bit read \<^verbatim>\<open>hi << 8 | lo\<close>.\<close>

definition be16 :: "u8 \<Rightarrow> u8 \<Rightarrow> u16" where
  "be16 hi lo = push_bit 8 (ucast hi) OR ucast lo"

text \<open>
  \<^verbatim>\<open>memcpy(dst + off, src, n)\<close> into an array of fixed capacity. The code only copies within
  the capacity; the model keeps the capacity whatever the arguments.
\<close>

definition memcpy :: "u8 list \<Rightarrow> nat \<Rightarrow> u8 list \<Rightarrow> u8 list" where
  "memcpy dst off src = take (length dst) (take off dst @ src @ drop (off + length src) dst)"

subsection \<open>\<^verbatim>\<open>dns_make_name\<close>\<close>

text \<open>
  The loop over the characters of the host name. \<open>nm\<close> is \<^verbatim>\<open>state->name\<close>, \<open>d\<close> the write
  cursor and \<open>len\<close> the index of the current label's length byte. The result is whether
  the loop ran to the end, the array and the cursor.
\<close>

fun make_name_loop :: "u8 list \<Rightarrow> nat \<Rightarrow> nat \<Rightarrow> u8 list \<Rightarrow> bool \<times> u8 list \<times> nat" where
  "make_name_loop nm d len [] = (True, nm, d)"
| "make_name_loop nm d len (c # cs) =
     (if int d \<ge> int (length nm) - 1 then (False, nm, d)
      else if c = 0x2E then make_name_loop (nm[d := 0]) (d + 1) d cs
      else if nm ! len \<ge> 63 then (False, nm, d)
      else make_name_loop ((nm[d := c])[len := nm ! len + 1]) (d + 1) len cs)"

definition dns_make_name :: "mobile_adapter_dns \<Rightarrow> u8 list \<Rightarrow> bool \<times> mobile_adapter_dns" where
  "dns_make_name state host =
     (case make_name_loop ((name state)[0 := 0]) 1 0 host of
        (False, nm, d) \<Rightarrow> (False, state\<lparr>name := nm\<rparr>)
      | (True, nm, d) \<Rightarrow> (True, state\<lparr>name := nm[d := 0], name_len := d + 1\<rparr>))"

subsection \<open>\<^verbatim>\<open>dns_compare_name\<close>\<close>

text \<open>The inner loop \<^verbatim>\<open>while (len--) if (*cmp++ != *name++) return -1;\<close>.\<close>

fun cmp_bytes :: "u8 list \<Rightarrow> u8 list \<Rightarrow> nat \<Rightarrow> nat \<Rightarrow> nat \<Rightarrow> bool" where
  "cmp_bytes buf nm c n 0 = True"
| "cmp_bytes buf nm c n (Suc len) =
     (if buf ! c \<noteq> nm ! n then False else cmp_bytes buf nm (c + 1) (n + 1) len)"

text \<open>
  The outer loop \<^verbatim>\<open>for (;;)\<close> together with the code after it. \<open>n\<close> is the index
  \<^verbatim>\<open>name - state->name\<close>, \<open>c\<close> the index \<^verbatim>\<open>cmp - state->buffer\<close>, \<open>e\<close> the variable
  \<^verbatim>\<open>end\<close>. The result is the return value and the value stored to \<^verbatim>\<open>*offset\<close>, if the
  store is reached.
\<close>

partial_function (option) compare_loop ::
  "mobile_adapter_dns \<Rightarrow> nat \<Rightarrow> nat \<Rightarrow> int \<Rightarrow> (int \<times> nat option) option" where
  "compare_loop state n c e =
     (if buffer state ! c = 0 then
        (if name state ! n \<noteq> 0 then Some (-1, None)
         else Some (0, Some (nat (if e < 0 then int c + 1 else e))))
      else if buffer state ! c AND 0xC0 = 0xC0 then
        (if c + 2 > buffer_len state then Some (-1, None)
         else let e' = (if e < 0 then int c + 2 else e);
                  off = unat (push_bit 8 (ucast (buffer state ! c AND 0x3F)) OR
                              (ucast (buffer state ! (c + 1)) :: u16))
              in if off \<ge> buffer_len state then Some (-1, None)
                 else compare_loop state n off e')
      else if buffer state ! c AND 0xC0 = 0x00 then
        (let len = unat (buffer state ! c) + 1
         in if n + len \<ge> name_len state then Some (-1, None)
            else if c + len \<ge> buffer_len state then Some (-1, None)
            else if \<not> cmp_bytes (buffer state) (name state) c n len then Some (-1, None)
            else compare_loop state (n + len) (c + len) e)
      else Some (0, None))"

declare compare_loop.simps [code]

definition dns_compare_name :: "mobile_adapter_dns \<Rightarrow> nat \<Rightarrow> (int \<times> nat option) option" where
  "dns_compare_name state offset =
     (if offset \<ge> buffer_len state then Some (0, None)
      else if name_len state = 0 then Some (0, None)
      else compare_loop state 0 offset (-1))"

text \<open>The caller's \<^verbatim>\<open>offset\<close> variable after the call.\<close>

definition stored :: "nat \<Rightarrow> nat option \<Rightarrow> nat" where
  "stored offset w = (case w of None \<Rightarrow> offset | Some v \<Rightarrow> v)"

subsection \<open>\<^verbatim>\<open>dns_make_query\<close>\<close>

definition dns_make_query :: "mobile_adapter_dns \<Rightarrow> dns_qtype \<Rightarrow> bool \<times> mobile_adapter_dns" where
  "dns_make_query state type =
     (let id' = dns_id state + 1;
          header = [ucast (drop_bit 8 id' AND 0xFF), ucast (id' AND 0xFF),
                    0x01, 0x00, 0, 1, 0, 0, 0, 0, 0, 0];
          buf1 = memcpy (buffer state) 0 header;
          buf2 = memcpy buf1 DNS_HEADER_SIZE (take (name_len state) (name state));
          question = [ucast (drop_bit 8 (qtype_val type) AND 0xFF),
                      ucast (qtype_val type AND 0xFF), 0, 1];
          buf3 = memcpy buf2 (DNS_HEADER_SIZE + name_len state) question
      in (True, state\<lparr>dns_id := id', dns_type := type, buffer := buf3,
                       buffer_len := DNS_HEADER_SIZE + name_len state + DNS_QD_SIZE\<rparr>))"

subsection \<open>\<^verbatim>\<open>dns_verify_response\<close>\<close>

text \<open>
  The result is the return value and the value of \<^verbatim>\<open>*offset\<close> after the call, if the
  function stored to it (the caller's variable is uninitialised before the call).
\<close>

definition dns_verify_response :: "mobile_adapter_dns \<Rightarrow> (int \<times> nat option) option" where
  "dns_verify_response state =
     (let b = buffer state in
      if buffer_len state < DNS_HEADER_SIZE then Some (-1, None)
      else if be16 (b ! 0) (b ! 1) \<noteq> dns_id state then Some (-1, None)
      else let flags = be16 (b ! 2) (b ! 3) in
      if flags AND 0xFBFF \<noteq> 0x8180 then Some (-2 - uint (flags AND 0xF), None)
      else let qdcount = be16 (b ! 4) (b ! 5); ancount = be16 (b ! 6) (b ! 7) in
      if qdcount \<noteq> 1 then Some (-18, None)
      else if ancount < 1 then Some (-18, None)
      else case dns_compare_name state DNS_HEADER_SIZE of
        None \<Rightarrow> None
      | Some (cmp, w) \<Rightarrow>
          let offset = stored DNS_HEADER_SIZE w in
          if cmp \<noteq> 0 \<or> offset + DNS_QD_SIZE > buffer_len state then Some (-19, Some offset)
          else if be16 (b ! offset) (b ! (offset + 1)) \<noteq> qtype_val (dns_type state)
            then Some (-19, Some offset)
          else if be16 (b ! (offset + 2)) (b ! (offset + 3)) \<noteq> 1 then Some (-19, Some offset)
          else Some (uint ancount, Some (offset + DNS_QD_SIZE)))"

subsection \<open>\<^verbatim>\<open>dns_get_answer\<close>\<close>

text \<open>The result is the return value and the value of \<^verbatim>\<open>*offset\<close> after the call.\<close>

definition dns_get_answer :: "mobile_adapter_dns \<Rightarrow> nat \<Rightarrow> (int \<times> nat) option" where
  "dns_get_answer state offset =
     (case dns_compare_name state offset of
        None \<Rightarrow> None
      | Some (name_cmp, w) \<Rightarrow>
          let b = buffer state; info = stored offset w in
          if info + DNS_RR_SIZE > buffer_len state then Some (-1, info)
          else let rdlength = unat (be16 (b ! (info + 8)) (b ! (info + 9)));
                   rdata = info + DNS_RR_SIZE in
          if info + DNS_RR_SIZE + rdlength > buffer_len state then Some (-1, info)
          else let offset' = info + DNS_RR_SIZE + rdlength in
          if name_cmp \<noteq> 0 then Some (-2, offset')
          else if be16 (b ! info) (b ! (info + 1)) \<noteq> qtype_val (dns_type state)
            then Some (-2, offset')
          else if be16 (b ! (info + 2)) (b ! (info + 3)) \<noteq> 1 then Some (-2, offset')
          else if dns_type state = DNS_QTYPE_A \<and> rdlength \<noteq> 4 then Some (-2, offset')
          else if dns_type state = DNS_QTYPE_AAAA \<and> rdlength \<noteq> 16 then Some (-2, offset')
          else Some (int rdata, offset'))"

subsection \<open>The public functions\<close>

definition mobile_dns_init :: "mobile_adapter \<Rightarrow> mobile_adapter" where
  "mobile_dns_init adapter = adapter\<lparr>dns := (dns adapter)\<lparr>dns_id := 0\<rparr>\<rparr>"

text \<open>The address \<^verbatim>\<open>addr_send\<close> both public functions build.\<close>

definition addr_send :: "mobile_adapter \<Rightarrow> mobile_addr" where
  "addr_send adapter =
     \<lparr>addr_type = MOBILE_ADDRTYPE_IPV4, addr_port = DNS_PORT, addr_host = take 4 (dns1 adapter)\<rparr>"

text \<open>
  \<^verbatim>\<open>mobile_dns_query_send\<close>. The board callback \<^verbatim>\<open>mobile_board_sock_send\<close> is outside the
  library: its result is the parameter \<open>send_ok\<close>. The result records the return value,
  the adapter afterwards, the datagram and destination handed to the board, and whether the
  connection was closed.
\<close>

record send_result =
  send_ret :: bool
  send_adapter :: mobile_adapter
  send_datagram :: "(u8 list \<times> mobile_addr) option"
  send_closed :: bool

definition mobile_dns_query_send :: "mobile_adapter \<Rightarrow> bool \<Rightarrow> u8 list \<Rightarrow> send_result" where
  "mobile_dns_query_send adapter send_ok host =
     (case dns_make_name (dns adapter) host of
        (False, s1) \<Rightarrow>
          \<lparr>send_ret = False, send_adapter = adapter\<lparr>dns := s1\<rparr>,
           send_datagram = None, send_closed = False\<rparr>
      | (True, s1) \<Rightarrow>
         (case dns_make_query s1 DNS_QTYPE_A of
            (False, s2) \<Rightarrow>
              \<lparr>send_ret = False, send_adapter = adapter\<lparr>dns := s2\<rparr>,
               send_datagram = None, send_closed = False\<rparr>
          | (True, s2) \<Rightarrow>
              let sent = Some (take (buffer_len s2) (buffer s2), addr_send adapter) in
              if \<not> send_ok
              then \<lparr>send_ret = False, send_adapter = adapter\<lparr>dns := s2\<rparr>,
                    send_datagram = sent, send_closed = True\<rparr>
              else \<lparr>send_ret = True, send_adapter = adapter\<lparr>dns := s2\<rparr>,
                    send_datagram = sent, send_closed = False\<rparr>))"

text \<open>
  Modelled from the spec: the board callback \<^verbatim>\<open>mobile_board_sock_recv\<close> is outside the
  library. By its contract it "returns -1 on error, 0 if no datagram available yet, or the
  byte count received with sender address written to an out-parameter"; the datagram is
  written to the destination buffer, cut to the size it was given.
\<close>

datatype sock_recv_result =
  Sock_Error
| Sock_Nothing
| Sock_Datagram "u8 list" mobile_addr

text \<open>
  The answer scan \<^verbatim>\<open>while (ancount--)\<close> of \<^verbatim>\<open>mobile_dns_query_recv\<close> and the
  \<^verbatim>\<open>return 1\<close> after it. The result is the return value and the bytes copied to the
  caller's \<^verbatim>\<open>ip\<close>, if the \<^verbatim>\<open>memcpy\<close> is reached.
\<close>

fun scan_answers :: "mobile_adapter_dns \<Rightarrow> nat \<Rightarrow> nat \<Rightarrow> (int \<times> u8 list option) option" where
  "scan_answers s 0 offset = Some (1, None)"
| "scan_answers s (Suc ancount) offset =
     (case dns_get_answer s offset of
        None \<Rightarrow> None
      | Some (anoffset, offset') \<Rightarrow>
          if anoffset < -1 then scan_answers s ancount offset'
          else if anoffset = -1 then Some (-1, None)
          else Some (1, Some (take 4 (drop (nat anoffset) (buffer s)))))"

text \<open>
  \<^verbatim>\<open>memcmp(&addr_send, addr_recv4, sizeof(struct mobile_addr4))\<close>: type, port and the four
  host bytes.
\<close>

definition addr4_equal :: "mobile_addr \<Rightarrow> mobile_addr \<Rightarrow> bool" where
  "addr4_equal a b \<longleftrightarrow>
     addr_type a = addr_type b \<and> addr_port a = addr_port b \<and>
     take 4 (addr_host a) = take 4 (addr_host b)"

text \<open>
  \<^verbatim>\<open>mobile_dns_query_recv\<close>. The result is the return value, the adapter afterwards and
  the bytes copied to the caller's \<^verbatim>\<open>ip\<close>, if any.
\<close>

definition mobile_dns_query_recv ::
  "mobile_adapter \<Rightarrow> sock_recv_result \<Rightarrow> (int \<times> mobile_adapter \<times> u8 list option) option" where
  "mobile_dns_query_recv adapter r =
     (case r of
        Sock_Error \<Rightarrow> Some (-1, adapter, None)
      | Sock_Nothing \<Rightarrow> Some (0, adapter, None)
      | Sock_Datagram datagram addr_recv \<Rightarrow>
          let s = dns adapter;
              received = take (MOBILE_DNS_PACKET_SIZE s) datagram;
              recv = length received;
              s0 = s\<lparr>buffer := memcpy (buffer s) 0 received\<rparr>
          in if recv \<le> 0 then Some (int recv, adapter\<lparr>dns := s0\<rparr>, None)
          else let s1 = s0\<lparr>buffer_len := recv\<rparr>;
                   adapter' = adapter\<lparr>dns := s1\<rparr>
          in if addr_type (addr_send adapter) \<noteq> addr_type addr_recv then Some (0, adapter', None)
          else if \<not> addr4_equal (addr_send adapter) addr_recv then Some (0, adapter', None)
          else (case dns_verify_response s1 of
                  None \<Rightarrow> None
                | Some (ancount, w) \<Rightarrow>
                    if ancount < 0 then Some (-1, adapter', None)
                    else (case scan_answers s1 (nat ancount) (stored 0 w) of
                            None \<Rightarrow> None
                          | Some (ret, ip) \<Rightarrow> Some (ret, adapter', ip))))"

subsection \<open>Concrete inputs\<close>

text \<open>
  An adapter with a name array of 8 bytes and a packet buffer of 40 bytes, after the query
  for the host \<open>a\<close> has been sent with id 1 to the resolver 8.8.8.8.
\<close>

definition ex_dns :: mobile_adapter_dns where
  "ex_dns = \<lparr>dns_id = 1, dns_type = DNS_QTYPE_A,
     name = [1, 0x61, 0, 0, 0, 0, 0, 0], name_len = 3,
     buffer = [0, 1, 1, 0, 0, 1, 0, 0, 0, 0, 0, 0, 1, 0x61, 0, 0, 1, 0, 1] @ replicate 21 0,
     buffer_len = 19\<rparr>"

definition ex_adapter :: mobile_adapter where
  "ex_adapter = \<lparr>dns = ex_dns, dns1 = [8, 8, 8, 8]\<rparr>"

definition ex_resolver :: mobile_addr where
  "ex_resolver = \<lparr>addr_type = MOBILE_ADDRTYPE_IPV4, addr_port = 53, addr_host = [8, 8, 8, 8]\<rparr>"

definition ex_stranger :: mobile_addr where
  "ex_stranger = \<lparr>addr_type = MOBILE_ADDRTYPE_IPV4, addr_port = 53, addr_host = [8, 8, 4, 4]\<rparr>"

text \<open>
  A response to that query with one answer record: the owner name is a pointer to the
  question name, the type is A, the class IN, RDLENGTH 4, RDATA 1.2.3.4.
\<close>

definition resp_a :: "u8 list" where
  "resp_a = [0, 1, 0x81, 0x80, 0, 1, 0, 1, 0, 0, 0, 0,
             1, 0x61, 0, 0, 1, 0, 1,
             0xC0, 0x0C, 0, 1, 0, 1, 0, 0, 0, 0, 0, 4, 1, 2, 3, 4]"

text \<open>
  A response whose only answer record is a CNAME (type 5) with the question's owner name
  and two bytes of RDATA.
\<close>

definition resp_cname :: "u8 list" where
  "resp_cname = [0, 1, 0x81, 0x80, 0, 1, 0, 1, 0, 0, 0, 0,
                 1, 0x61, 0, 0, 1, 0, 1,
                 0xC0, 0x0C, 0, 5, 0, 1, 0, 0, 0, 0, 0, 2, 0xC0, 0x0C]"

text \<open>The id field of a datagram and the flags field of the response in the buffer.\<close>

definition wire_id :: "u8 list \<Rightarrow> u16" where
  "wire_id d = be16 (d ! 0) (d ! 1)"

definition response_flags :: "mobile_adapter_dns \<Rightarrow> u16" where
  "response_flags s = be16 (buffer s ! 2) (buffer s ! 3)"

text \<open>
  The resolver state with a response in the buffer whose flags are \<open>0x8183\<close> (response code
  3, NXDOMAIN), and one whose flags are \<open>0x8182\<close> (response code 2, server failure).
\<close>

definition ex_dns_nxdomain :: mobile_adapter_dns where
  "ex_dns_nxdomain = ex_dns\<lparr>buffer := [0, 1, 0x81, 0x83, 0, 1, 0, 0, 0, 0, 0, 0,
      1, 0x61, 0, 0, 1, 0, 1] @ replicate 21 0, buffer_len := 19\<rparr>"

definition ex_dns_servfail :: mobile_adapter_dns where
  "ex_dns_servfail = ex_dns\<lparr>buffer := [0, 1, 0x81, 0x82, 0, 1, 0, 0, 0, 0, 0, 0,
      1, 0x61, 0, 0, 1, 0, 1] @ replicate 21 0, buffer_len := 19\<rparr>"

text \<open>
  An adapter whose id is \<open>0xFFFF\<close>, and a response with id 0 to a query for the host \<open>a\<close>.
\<close>

definition ex_adapter_ffff :: mobile_adapter where
  "ex_adapter_ffff = \<lparr>dns = \<lparr>dns_id = 0xFFFF, dns_type = DNS_QTYPE_A,
       name = replicate 8 0, name_len = 0, buffer = replicate 40 0, buffer_len = 0\<rparr>,
     dns1 = [8, 8, 8, 8]\<rparr>"

definition resp_a_id0 :: "u8 list" where
  "resp_a_id0 = [0, 0, 0x81, 0x80, 0, 1, 0, 1, 0, 0, 0, 0,
                 1, 0x61, 0, 0, 1, 0, 1,
                 0xC0, 0x0C, 0, 1, 0, 1, 0, 0, 0, 0, 0, 4, 1, 2, 3, 4]"

text \<open>
  A response whose question name is a compression pointer to itself (offset 12 holds
  \<open>C0 0C\<close>), and the resolver state once \<^verbatim>\<open>mobile_dns_query_recv\<close> has received it into
  the buffer of \<open>ex_dns\<close> (byte 18 is left over from the query).
\<close>

definition resp_cycle :: "u8 list" where
  "resp_cycle = [0, 1, 0x81, 0x80, 0, 1, 0, 1, 0, 0, 0, 0, 0xC0, 0x0C, 0, 1, 0, 1]"

definition ex_dns_cycle :: mobile_adapter_dns where
  "ex_dns_cycle = ex_dns\<lparr>buffer := resp_cycle @ 1 # replicate 21 0, buffer_len := 18\<rparr>"

subsection \<open>Host names as lists of labels\<close>

text \<open>
  The labels of a host name in the spec's words ("splits name on \<open>.\<close>"): the pieces between
  the dots. The empty host name has one empty label; two dots in a row enclose an empty label.
\<close>

fun split_labels :: "u8 list \<Rightarrow> u8 list list" where
  "split_labels [] = [[]]"
| "split_labels (c # cs) =
     (if c = 0x2E then [] # split_labels cs
      else (case split_labels cs of [] \<Rightarrow> [[c]] | l # ls \<Rightarrow> (c # l) # ls))"

text \<open>The state \<open>ex_dns\<close> with a name array of 80 bytes.\<close>

definition ex_dns_wide :: mobile_adapter_dns where
  "ex_dns_wide = ex_dns\<lparr>name := replicate 80 0, name_len := 0\<rparr>"

subsection \<open>The end of a wire name, in the spec's words\<close>

text \<open>
  Where a wire name stops in the buffer when it is read label by label from \<open>pos\<close>
  without following any pointer: at its terminating zero byte, or at the first compression
  pointer. \<open>n\<close> is the length of the received message. \<open>end_offset\<close> is the offset the
  spec asks for: one past the terminator, or the first pointer's position plus 2.
\<close>

datatype name_stop = Terminator nat | First_pointer nat

function first_stop :: "u8 list \<Rightarrow> nat \<Rightarrow> nat \<Rightarrow> name_stop option" where
  "first_stop buf n pos =
     (if pos \<ge> n then None
      else if buf ! pos = 0 then Some (Terminator pos)
      else if buf ! pos AND 0xC0 = 0xC0 then Some (First_pointer pos)
      else if buf ! pos AND 0xC0 = 0x00 then first_stop buf n (pos + unat (buf ! pos) + 1)
      else None)"
  by pat_completeness auto
termination
  by (relation "measure (\<lambda>(buf, n, pos). n - pos)") auto

fun end_offset :: "name_stop \<Rightarrow> nat" where
  "end_offset (Terminator p) = p + 1"
| "end_offset (First_pointer p) = p + 2"

text \<open>
  A response with a second answer-like name at offset 35 that is a pointer (\<open>C0 13\<close>) to
  the pointer at offset 19, which points to the question name at offset 12.
\<close>

definition resp_two_pointers :: "u8 list" where
  "resp_two_pointers = [0, 1, 0x81, 0x80, 0, 1, 0, 1, 0, 0, 0, 0,
                 1, 0x61, 0, 0, 1, 0, 1,
                 0xC0, 0x0C, 0, 1, 0, 1, 0, 0, 0, 0, 0, 4, 1, 2, 3, 4, 0xC0, 0x13]"

definition ex_dns_two_pointers :: mobile_adapter_dns where
  "ex_dns_two_pointers = ex_dns\<lparr>buffer := resp_two_pointers @ replicate 3 0, buffer_len := 37\<rparr>"

text \<open>The invariant of the loop of \<^verbatim>\<open>dns_compare_name\<close> for the end offset.\<close>

definition end_ok :: "mobile_adapter_dns \<Rightarrow> nat \<Rightarrow> int \<Rightarrow> int \<times> nat option \<Rightarrow> bool" where
  "end_ok s c e0 y \<longleftrightarrow>
     (\<forall>r e. y = (r, Some e) \<longrightarrow> c < buffer_len s \<longrightarrow>
        r = 0 \<and> (if 0 \<le> e0 then int e = e0
                 else \<exists>p. first_stop (buffer s) (buffer_len s) c = Some p \<and> e = end_offset p))"

subsection \<open>The fields of an answer record, and the answer filter in the spec's words\<close>

text \<open>
  \<open>info\<close> is the offset of the fixed 10-byte block of a record (type, class, TTL,
  RDLENGTH); the RDATA follows it. \<open>rr_in_buffer\<close> says that the block and the declared
  RDATA span lie in the received message. \<open>answer_filter\<close> is the spec's filter on the
  block: the type is the query type, the class is IN, and RDLENGTH is 4 for type A and 16
  for type AAAA.
\<close>

definition rr_type :: "mobile_adapter_dns \<Rightarrow> nat \<Rightarrow> u16" where
  "rr_type s info = be16 (buffer s ! info) (buffer s ! (info + 1))"

definition rr_class :: "mobile_adapter_dns \<Rightarrow> nat \<Rightarrow> u16" where
  "rr_class s info = be16 (buffer s ! (info + 2)) (buffer s ! (info + 3))"

definition rr_rdlength :: "mobile_adapter_dns \<Rightarrow> nat \<Rightarrow> nat" where
  "rr_rdlength s info = unat (be16 (buffer s ! (info + 8)) (buffer s ! (info + 9)))"

definition rr_rdata :: "mobile_adapter_dns \<Rightarrow> nat \<Rightarrow> u8 list" where
  "rr_rdata s info = take (rr_rdlength s info) (drop (info + DNS_RR_SIZE) (buffer s))"

definition rr_in_buffer :: "mobile_adapter_dns \<Rightarrow> nat \<Rightarrow> bool" where
  "rr_in_buffer s info \<longleftrightarrow>
     info + DNS_RR_SIZE \<le> buffer_len s \<and>
     info + DNS_RR_SIZE + rr_rdlength s info \<le> buffer_len s"

definition answer_filter :: "mobile_adapter_dns \<Rightarrow> nat \<Rightarrow> bool" where
  "answer_filter s info \<longleftrightarrow>
     rr_type s info = qtype_val (dns_type s) \<and> rr_class s info = 1 \<and>
     rr_rdlength s info = (case dns_type s of DNS_QTYPE_A \<Rightarrow> 4 | DNS_QTYPE_AAAA \<Rightarrow> 16)"

definition rr_next :: "mobile_adapter_dns \<Rightarrow> nat \<Rightarrow> nat" where
  "rr_next s info = info + DNS_RR_SIZE + rr_rdlength s info"

subsection \<open>Wire names, in the spec's words\<close>

text \<open>
  \<open>wire_name buf n pos bytes\<close>: in a message of \<open>n\<close> bytes, the name at \<open>pos\<close> is a
  sequence of length-prefixed labels ended by a zero length byte, where a length byte with
  the top two bits set is instead a 2-byte pointer to another offset of the message, and
  written out without pointers it is \<open>bytes\<close> (length bytes, label bytes and the final
  zero). A name whose pointers form a cycle spells nothing.

  \<open>spells_query s offset\<close>: the name at \<open>offset\<close> of the received message spells the
  stored query name, up to and including its first zero length byte.

  \<open>wf_dns s\<close>: a name is stored, and \<open>name_len\<close> and \<open>buffer_len\<close> do not exceed the
  arrays, as after \<^verbatim>\<open>dns_make_name\<close> and \<^verbatim>\<open>mobile_board_sock_recv\<close>.
\<close>

inductive wire_name :: "u8 list \<Rightarrow> nat \<Rightarrow> nat \<Rightarrow> u8 list \<Rightarrow> bool" for buf :: "u8 list" and n :: nat where
  wire_end: "pos < n \<Longrightarrow> buf ! pos = 0 \<Longrightarrow> wire_name buf n pos [0]"
| wire_pointer:
    "pos < n \<Longrightarrow> buf ! pos AND 0xC0 = 0xC0 \<Longrightarrow> pos + 2 \<le> n \<Longrightarrow>
     wire_name buf n
       (unat (push_bit 8 (ucast (buf ! pos AND 0x3F)) OR (ucast (buf ! (pos + 1)) :: u16))) bytes \<Longrightarrow>
     wire_name buf n pos bytes"
| wire_label:
    "pos < n \<Longrightarrow> buf ! pos \<noteq> 0 \<Longrightarrow> buf ! pos AND 0xC0 = 0x00 \<Longrightarrow>
     wire_name buf n (pos + (unat (buf ! pos) + 1)) rest \<Longrightarrow>
     wire_name buf n pos (take (unat (buf ! pos) + 1) (drop pos buf) @ rest)"

code_pred wire_name .

definition spells_query :: "mobile_adapter_dns \<Rightarrow> nat \<Rightarrow> bool" where
  "spells_query s offset \<longleftrightarrow>
     (\<exists>k\<le>name_len s. wire_name (buffer s) (buffer_len s) offset (take k (name s)))"

definition wf_dns :: "mobile_adapter_dns \<Rightarrow> bool" where
  "wf_dns s \<longleftrightarrow>
     0 < name_len s \<and> name_len s \<le> length (name s) \<and> buffer_len s \<le> length (buffer s)"

text \<open>The invariant of the loop of \<^verbatim>\<open>dns_compare_name\<close> for the bytes compared.\<close>

definition name_ok :: "mobile_adapter_dns \<Rightarrow> nat \<Rightarrow> nat \<Rightarrow> int \<times> nat option \<Rightarrow> bool" where
  "name_ok s n c y \<longleftrightarrow>
     (name_len s \<le> length (name s) \<longrightarrow> buffer_len s \<le> length (buffer s) \<longrightarrow>
      c < buffer_len s \<longrightarrow> n < name_len s \<longrightarrow>
      (\<forall>x. y = (0, Some x) \<longrightarrow>
         (\<exists>bytes. wire_name (buffer s) (buffer_len s) c bytes \<and>
                  take (length bytes) (drop n (name s)) = bytes \<and>
                  n + length bytes \<le> name_len s)))"

text \<open>
  A response with two answer records that lie in the message: the first has the owner name
  \<open>b\<close>, type A and four bytes of RDATA, the second is a type A record for the question name
  with RDATA 1.2.3.4; and the resolver state holding it.
\<close>

definition resp_b_then_a :: "u8 list" where
  "resp_b_then_a = [0, 1, 0x81, 0x80, 0, 1, 0, 2, 0, 0, 0, 0,
                    1, 0x61, 0, 0, 1, 0, 1,
                    1, 0x62, 0, 0, 1, 0, 1, 0, 0, 0, 0, 0, 4, 9, 9, 9, 9,
                    0xC0, 0x0C, 0, 1, 0, 1, 0, 0, 0, 0, 0, 4, 1, 2, 3, 4]"

definition ex_dns_b_then_a :: mobile_adapter_dns where
  "ex_dns_b_then_a = ex_dns\<lparr>buffer := resp_b_then_a @ replicate 12 0, buffer_len := 52\<rparr>"

text \<open>
  An adapter and a resolver state whose query type is AAAA, and a response with one AAAA
  record of 16 bytes for the question name.
\<close>

definition resp_aaaa :: "u8 list" where
  "resp_aaaa = [0, 1, 0x81, 0x80, 0, 1, 0, 1, 0, 0, 0, 0,
                1, 0x61, 0, 0, 0x1C, 0, 1,
                0xC0, 0x0C, 0, 0x1C, 0, 1, 0, 0, 0, 0, 0, 0x10,
                0x20, 0x01, 0x0D, 0xB8, 0, 0, 0, 0, 0, 0, 0, 0, 0, 0, 0, 1]"

definition ex_adapter_aaaa :: mobile_adapter where
  "ex_adapter_aaaa = \<lparr>dns = ex_dns\<lparr>dns_type := DNS_QTYPE_AAAA, buffer := replicate 64 0\<rparr>,
                       dns1 = [8, 8, 8, 8]\<rparr>"

definition ex_dns_aaaa :: mobile_adapter_dns where
  "ex_dns_aaaa = ex_dns\<lparr>dns_type := DNS_QTYPE_AAAA,
                        buffer := resp_aaaa @ replicate 17 0, buffer_len := 47\<rparr>"

text \<open>
  A response with two answer records, a CNAME and then an A record with RDATA 1.2.3.4; the
  resolver state holding it whole and holding only its first 47 bytes; and an adapter like
  \<open>ex_adapter\<close> with a packet buffer of 64 bytes.
\<close>

definition resp_cname_a :: "u8 list" where
  "resp_cname_a = [0, 1, 0x81, 0x80, 0, 1, 0, 2, 0, 0, 0, 0,
                   1, 0x61, 0, 0, 1, 0, 1,
                   0xC0, 0x0C, 0, 5, 0, 1, 0, 0, 0, 0, 0, 2, 0xC0, 0x0C,
                   0xC0, 0x0C, 0, 1, 0, 1, 0, 0, 0, 0, 0, 4, 1, 2, 3, 4]"

definition ex_dns_cname_a :: mobile_adapter_dns where
  "ex_dns_cname_a = ex_dns\<lparr>buffer := resp_cname_a @ replicate 15 0, buffer_len := 49\<rparr>"

definition ex_dns_cut :: mobile_adapter_dns where
  "ex_dns_cut = ex_dns\<lparr>buffer := resp_cname_a @ replicate 15 0, buffer_len := 47\<rparr>"

definition ex_adapter_64 :: mobile_adapter where
  "ex_adapter_64 = \<lparr>dns = ex_dns\<lparr>buffer := replicate 64 0\<rparr>, dns1 = [8, 8, 8, 8]\<rparr>"

text \<open>
  A response whose only answer record has type A, class IN and the question's owner name,
  but RDLENGTH 3.
\<close>

definition resp_a_len3 :: "u8 list" where
  "resp_a_len3 = [0, 1, 0x81, 0x80, 0, 1, 0, 1, 0, 0, 0, 0,
                  1, 0x61, 0, 0, 1, 0, 1,
                  0xC0, 0x0C, 0, 1, 0, 1, 0, 0, 0, 0, 0, 3, 1, 2, 3]"

section \<open>Properties\<close>

subsection \<open>Helper lemmas\<close>

lemma mismatch_iff:
  "addr_type (addr_send adapter) \<noteq> addr_type addr_recv \<or>
     \<not> addr4_equal (addr_send adapter) addr_recv
   \<longleftrightarrow> addr_type addr_recv \<noteq> MOBILE_ADDRTYPE_IPV4 \<or> addr_port addr_recv \<noteq> 53 \<or>
       take 4 (addr_host addr_recv) \<noteq> take 4 (dns1 adapter)"
  by (auto simp: addr4_equal_def addr_send_def DNS_PORT_def)

lemma memcpy_0: "length src \<le> length dst \<Longrightarrow> memcpy dst 0 src = src @ drop (length src) dst"
  by (simp add: memcpy_def)

subsection \<open>The sender check of \<^verbatim>\<open>mobile_dns_query_recv\<close>\<close>

text \<open>
  Claim C8. A datagram whose sender differs from the configured resolver address in its
  address type, its port (53) or its four host bytes makes \<^verbatim>\<open>mobile_dns_query_recv\<close>
  return 0 (pending), whatever the datagram contains; nothing is copied to \<^verbatim>\<open>ip\<close>.
\<close>

theorem recv_sender_mismatch_pending:
  assumes "addr_type addr_recv \<noteq> MOBILE_ADDRTYPE_IPV4 \<or> addr_port addr_recv \<noteq> 53 \<or>
       take 4 (addr_host addr_recv) \<noteq> take 4 (dns1 adapter)"
  shows "\<exists>adapter'. mobile_dns_query_recv adapter (Sock_Datagram datagram addr_recv) =
           Some (0, adapter', None)"
  using assms mismatch_iff[of adapter addr_recv]
  by (auto simp: mobile_dns_query_recv_def Let_def)

theorem recv_sender_mismatch_pending_witness:
  "take 4 (addr_host ex_stranger) \<noteq> take 4 (dns1 ex_adapter) \<and>
   (\<exists>adapter'. mobile_dns_query_recv ex_adapter (Sock_Datagram resp_a ex_stranger) =
       Some (0, adapter', None))"
  using recv_sender_mismatch_pending[of ex_stranger ex_adapter resp_a]
  by (simp add: ex_stranger_def ex_adapter_def)

text \<open>
  Claim C10. When a non-empty datagram that fits the packet buffer arrives from a wrong
  sender, \<^verbatim>\<open>mobile_dns_query_recv\<close> returns 0, and the adapter afterwards has the
  datagram at the start of the wire buffer and its length in \<open>buffer_len\<close>; the id, the
  type, the name and \<open>name_len\<close> (and the resolver address) are as before.
\<close>

theorem recv_sender_mismatch_overwrites_buffer:
  assumes "addr_type addr_recv \<noteq> MOBILE_ADDRTYPE_IPV4 \<or> addr_port addr_recv \<noteq> 53 \<or>
       take 4 (addr_host addr_recv) \<noteq> take 4 (dns1 adapter)"
    and "datagram \<noteq> []" and "length datagram \<le> MOBILE_DNS_PACKET_SIZE (dns adapter)"
  shows "mobile_dns_query_recv adapter (Sock_Datagram datagram addr_recv) =
     Some (0, adapter\<lparr>dns := (dns adapter)\<lparr>
        buffer := datagram @ drop (length datagram) (buffer (dns adapter)),
        buffer_len := length datagram\<rparr>\<rparr>, None)"
  using assms mismatch_iff[of adapter addr_recv]
  by (auto simp: mobile_dns_query_recv_def Let_def memcpy_0 MOBILE_DNS_PACKET_SIZE_def)

theorem recv_sender_mismatch_overwrites_buffer_witness:
  "take 4 (addr_host ex_stranger) \<noteq> take 4 (dns1 ex_adapter) \<and> resp_a \<noteq> [] \<and>
   length resp_a \<le> MOBILE_DNS_PACKET_SIZE (dns ex_adapter) \<and>
   mobile_dns_query_recv ex_adapter (Sock_Datagram resp_a ex_stranger) =
     Some (0, ex_adapter\<lparr>dns := ex_dns\<lparr>buffer := resp_a @ replicate 5 0,
                                         buffer_len := 35\<rparr>\<rparr>, None) \<and>
   buffer ex_dns \<noteq> resp_a @ replicate 5 0"
  using recv_sender_mismatch_overwrites_buffer[of ex_stranger ex_adapter resp_a]
  by (simp add: ex_stranger_def ex_adapter_def ex_dns_def resp_a_def MOBILE_DNS_PACKET_SIZE_def)

subsection \<open>A response without an acceptable answer\<close>

text \<open>
  Claim C1. The response \<open>resp_cname\<close> comes from the configured resolver and passes the
  header, flags, count and question checks; its only answer record is a CNAME, which the
  answer filter skips. \<^verbatim>\<open>mobile_dns_query_recv\<close> then leaves the loop and returns 1
  (success), with nothing copied to \<^verbatim>\<open>ip\<close>.
\<close>

theorem recv_no_matching_answer_returns_success:
  "mobile_dns_query_recv ex_adapter (Sock_Datagram resp_cname ex_resolver) =
     Some (1, ex_adapter\<lparr>dns := ex_dns\<lparr>buffer := resp_cname @ replicate 7 0,
                                         buffer_len := 33\<rparr>\<rparr>, None)"
  by code_simp

subsection \<open>The flags check of \<^verbatim>\<open>dns_verify_response\<close>\<close>

lemma all_less_16: "(\<forall>n<16. P (n::nat)) \<longleftrightarrow> P 0 \<and> P 1 \<and> P 2 \<and> P 3 \<and> P 4 \<and> P 5 \<and> P 6 \<and> P 7 \<and> P 8 \<and> P 9 \<and> P 10 \<and> P 11 \<and> P 12 \<and> P 13 \<and> P 14 \<and> P 15"
proof -
  have "(\<forall>n<16. P n) = (\<forall>n\<in>set [0..<16]. P n)" by auto
  also have "\<dots> = list_all P [0..<16]" by (simp add: list_all_iff)
  also have "[0..<16] = [0,1,2,3,4,5,6,7,8,9,10,11,12,13,14,15::nat]" by code_simp
  finally show ?thesis by simp
qed


lemma word16_eq_iff: "(w::u16) = v \<longleftrightarrow> (\<forall>n<16. bit w n = bit v n)"
  by (auto intro: bit_word_eqI)

lemma flags_pattern_bits:
  fixes f :: u16
  shows "f AND 0xFBFF = 0x8180 \<longleftrightarrow>
     bit f 15 \<and> \<not> bit f 14 \<and> \<not> bit f 13 \<and> \<not> bit f 12 \<and> \<not> bit f 11 \<and>
     \<not> bit f 9 \<and> bit f 8 \<and> bit f 7 \<and> \<not> bit f 6 \<and> \<not> bit f 5 \<and> \<not> bit f 4 \<and>
     \<not> bit f 3 \<and> \<not> bit f 2 \<and> \<not> bit f 1 \<and> \<not> bit f 0"
  by (simp add: word16_eq_iff all_less_16 bit_and_iff) blast

lemma ff16: "(0xFF::u16) = mask 8"
  by (simp add: mask_eq_exp_minus_1)

lemma be16_split: "be16 (ucast (drop_bit 8 w AND 0xFF)) (ucast (w AND 0xFF)) = (w::u16)"
  unfolding be16_def ff16
  apply (rule bit_word_eqI)
  apply (auto simp: bit_simps)
  done

lemma verify_flags_rejected:
  assumes "DNS_HEADER_SIZE \<le> buffer_len s" and "be16 (buffer s ! 0) (buffer s ! 1) = dns_id s"
    and "response_flags s AND 0xFBFF \<noteq> 0x8180"
  shows "dns_verify_response s = Some (- 2 - uint (response_flags s AND 0xF), None)"
  using assms by (simp add: dns_verify_response_def response_flags_def Let_def)

lemma rcode_bound: "uint ((f::u16) AND 0xF) \<le> 15"
  using word_and_le1[of f "0xF"] by (simp add: word_le_def)


lemma verify_flags_accepted:
  assumes "response_flags s AND 0xFBFF = 0x8180" and "dns_verify_response s = Some (r, w)"
  shows "r = -1 \<or> r = -18 \<or> r = -19 \<or> 1 \<le> r"
proof -
  have "1 \<le> uint a" if "\<not> a < 1" for a :: u16
    using that by (simp add: word_less_def)
  then show ?thesis
    using assms
    by (fastforce simp add: dns_verify_response_def response_flags_def Let_def
        split: if_splits option.splits)
qed

lemma uint_inj_code: "- 2 - uint (a::u16) = - 2 - uint b \<longleftrightarrow> a = b"
  by (simp add: word_uint_eq_iff)

text \<open>
  Claim C7. For a response with a full header and the id of the outstanding query (\<open>s\<close>,
  and a second one \<open>s'\<close>): the flags pass the test \<open>flags AND 0xFBFF = 0x8180\<close> exactly when
  QR (bit 15) is set, the opcode (bits 14 to 11) is 0, TC (bit 9) is clear, RD (bit 8) and
  RA (bit 7) are set, the Z, AD and CD bits (6 to 4) are clear and the response code (bits 3
  to 0) is 0; only bit 10 (AA) is masked off. \<^verbatim>\<open>dns_verify_response\<close> returns one of the
  codes \<open>-17 .. -2\<close> exactly when the flags fail the test, the code is then
  \<open>-2 - (flags AND 0xF)\<close>, and two rejected responses get the same result exactly when
  their response codes are equal.
\<close>

theorem verify_response_flags:
  assumes "DNS_HEADER_SIZE \<le> buffer_len s" and "wire_id (buffer s) = dns_id s"
      and "DNS_HEADER_SIZE \<le> buffer_len s'" and "wire_id (buffer s') = dns_id s'"
  shows "(response_flags s AND 0xFBFF = 0x8180 \<longleftrightarrow>
            bit (response_flags s) 15 \<and> \<not> bit (response_flags s) 14 \<and>
            \<not> bit (response_flags s) 13 \<and> \<not> bit (response_flags s) 12 \<and>
            \<not> bit (response_flags s) 11 \<and> \<not> bit (response_flags s) 9 \<and>
            bit (response_flags s) 8 \<and> bit (response_flags s) 7 \<and>
            \<not> bit (response_flags s) 6 \<and> \<not> bit (response_flags s) 5 \<and>
            \<not> bit (response_flags s) 4 \<and> \<not> bit (response_flags s) 3 \<and>
            \<not> bit (response_flags s) 2 \<and> \<not> bit (response_flags s) 1 \<and>
            \<not> bit (response_flags s) 0) \<and>
         ((\<exists>r w. dns_verify_response s = Some (r, w) \<and> - 17 \<le> r \<and> r \<le> - 2) \<longleftrightarrow>
            response_flags s AND 0xFBFF \<noteq> 0x8180) \<and>
         (response_flags s AND 0xFBFF \<noteq> 0x8180 \<longrightarrow>
            dns_verify_response s = Some (- 2 - uint (response_flags s AND 0xF), None)) \<and>
         (response_flags s AND 0xFBFF \<noteq> 0x8180 \<and> response_flags s' AND 0xFBFF \<noteq> 0x8180 \<longrightarrow>
            (dns_verify_response s = dns_verify_response s' \<longleftrightarrow>
             response_flags s AND 0xF = response_flags s' AND 0xF))"
proof -
  have rej: "dns_verify_response t = Some (- 2 - uint (response_flags t AND 0xF), None)"
    if "DNS_HEADER_SIZE \<le> buffer_len t" "wire_id (buffer t) = dns_id t"
       "response_flags t AND 0xFBFF \<noteq> 0x8180" for t
    using that verify_flags_rejected[of t] by (simp add: wire_id_def)
  have range: "- 17 \<le> - 2 - uint (response_flags s AND 0xF) \<and> - 2 - uint (response_flags s AND 0xF) \<le> - 2"
    using rcode_bound[of "response_flags s"] by simp
  have acc: "\<not> (- 17 \<le> r \<and> r \<le> - 2)"
    if "response_flags s AND 0xFBFF = 0x8180" "dns_verify_response s = Some (r, w)" for r w
    using verify_flags_accepted[OF that] by auto
  have iff: "(\<exists>r w. dns_verify_response s = Some (r, w) \<and> - 17 \<le> r \<and> r \<le> - 2) \<longleftrightarrow>
            response_flags s AND 0xFBFF \<noteq> 0x8180"
  proof (cases "response_flags s AND 0xFBFF = 0x8180")
    case True
    then show ?thesis using acc by blast
  next
    case False
    then show ?thesis using rej[OF assms(1,2)] range by simp
  qed
  have inj: "dns_verify_response s = dns_verify_response s' \<longleftrightarrow>
             response_flags s AND 0xF = response_flags s' AND 0xF"
    if "response_flags s AND 0xFBFF \<noteq> 0x8180" "response_flags s' AND 0xFBFF \<noteq> 0x8180"
    using rej[OF assms(1,2) that(1)] rej[OF assms(3,4) that(2)] by (simp add: uint_inj_code)
  show ?thesis
    using flags_pattern_bits[of "response_flags s"] iff rej[OF assms(1,2)] inj by blast
qed

theorem verify_response_flags_witness:
  "DNS_HEADER_SIZE \<le> buffer_len ex_dns_nxdomain \<and>
   wire_id (buffer ex_dns_nxdomain) = dns_id ex_dns_nxdomain \<and>
   DNS_HEADER_SIZE \<le> buffer_len ex_dns_servfail \<and>
   wire_id (buffer ex_dns_servfail) = dns_id ex_dns_servfail \<and>
   response_flags ex_dns_nxdomain = 0x8183 \<and> response_flags ex_dns_servfail = 0x8182 \<and>
   dns_verify_response ex_dns_nxdomain = Some (- 5, None) \<and>
   dns_verify_response ex_dns_servfail = Some (- 4, None) \<and>
   dns_verify_response ex_dns_nxdomain \<noteq> dns_verify_response ex_dns_servfail"
proof -
  have h1: "DNS_HEADER_SIZE \<le> buffer_len ex_dns_nxdomain" by code_simp
  have h2: "wire_id (buffer ex_dns_nxdomain) = dns_id ex_dns_nxdomain" by code_simp
  have h3: "DNS_HEADER_SIZE \<le> buffer_len ex_dns_servfail" by code_simp
  have h4: "wire_id (buffer ex_dns_servfail) = dns_id ex_dns_servfail" by code_simp
  have f1: "response_flags ex_dns_nxdomain = 0x8183" by code_simp
  have f2: "response_flags ex_dns_servfail = 0x8182" by code_simp
  show ?thesis
    using h1 h2 h3 h4 f1 f2 verify_response_flags[OF h1 h2 h3 h4]
      verify_response_flags[OF h3 h4 h1 h2]
    by simp
qed

subsection \<open>Query ids\<close>

lemma make_query_id: "dns_id (snd (dns_make_query s t)) = dns_id s + 1"
  by (simp add: dns_make_query_def Let_def)

lemma length_memcpy: "length (memcpy dst off src) = length dst"
  unfolding memcpy_def by (simp add: min_def)

lemma memcpy_nth_before: "i < off \<Longrightarrow> i < length dst \<Longrightarrow> memcpy dst off src ! i = dst ! i"
  unfolding memcpy_def by (simp add: nth_append)

lemma memcpy_nth_in:
  "off \<le> i \<Longrightarrow> i < off + length src \<Longrightarrow> i < length dst \<Longrightarrow> memcpy dst off src ! i = src ! (i - off)"
  unfolding memcpy_def by (auto simp add: nth_append min_def)

lemma make_query_capacity: "length (buffer (snd (dns_make_query s t))) = length (buffer s)"
  by (simp add: dns_make_query_def Let_def length_memcpy)

lemma make_query_buffer_len:
  "buffer_len (snd (dns_make_query s t)) = DNS_HEADER_SIZE + name_len s + DNS_QD_SIZE"
  by (simp add: dns_make_query_def Let_def)

lemma make_query_wire_id:
  assumes "DNS_HEADER_SIZE \<le> length (buffer s)"
  shows "buffer (snd (dns_make_query s t)) ! 0 = ucast (drop_bit 8 (dns_id s + 1) AND 0xFF) \<and>
         buffer (snd (dns_make_query s t)) ! 1 = ucast ((dns_id s + 1) AND 0xFF)"
proof -
  have "memcpy (memcpy (memcpy (buffer s) 0 hd) 12 nm) (12 + n) q ! i = hd ! i"
    if "i < 2" and "length hd = 12" for hd nm n q i
  proof -
    have "i < length (buffer s)"
      using that assms by (simp add: DNS_HEADER_SIZE_def)
    then show ?thesis
      using that
      by (simp add: memcpy_nth_before memcpy_nth_in length_memcpy)
  qed
  from this[of 0] this[of 1] show ?thesis
    by (simp add: dns_make_query_def Let_def DNS_HEADER_SIZE_def)
qed

lemma make_name_frame:
  "dns_id (snd (dns_make_name s h)) = dns_id s \<and> buffer (snd (dns_make_name s h)) = buffer s"
  by (simp add: dns_make_name_def split: prod.splits bool.splits)


lemma make_query_True: "dns_make_query s t = (True, snd (dns_make_query s t))"
  by (simp add: dns_make_query_def Let_def)

lemma send_datagram_Some:
  assumes "send_datagram (mobile_dns_query_send a ok h) = Some (d, dst)"
  shows "dns (send_adapter (mobile_dns_query_send a ok h)) =
           snd (dns_make_query (snd (dns_make_name (dns a) h)) DNS_QTYPE_A) \<and>
         d = take (buffer_len (dns (send_adapter (mobile_dns_query_send a ok h))))
                  (buffer (dns (send_adapter (mobile_dns_query_send a ok h))))"
proof (cases "dns_make_name (dns a) h")
  case (Pair b s1)
  show ?thesis
  proof (cases b)
    case True
    with Pair assms show ?thesis
      using make_query_True[of s1 DNS_QTYPE_A]
      by (cases "dns_make_query s1 DNS_QTYPE_A")
         (auto simp: mobile_dns_query_send_def Let_def split: if_splits)
  next
    case False
    with Pair assms show ?thesis
      by (simp add: mobile_dns_query_send_def)
  qed
qed

lemma send_wire_id:
  assumes cap: "DNS_HEADER_SIZE \<le> MOBILE_DNS_PACKET_SIZE (dns a)"
    and snd: "send_datagram (mobile_dns_query_send a ok h) = Some (d, dst)"
  shows "d ! 0 = ucast (drop_bit 8 (dns_id (dns a) + 1) AND 0xFF) \<and>
         d ! 1 = ucast ((dns_id (dns a) + 1) AND 0xFF) \<and>
         wire_id d = dns_id (dns a) + 1 \<and>
         dns_id (dns (send_adapter (mobile_dns_query_send a ok h))) = dns_id (dns a) + 1 \<and>
         MOBILE_DNS_PACKET_SIZE (dns (send_adapter (mobile_dns_query_send a ok h))) =
           MOBILE_DNS_PACKET_SIZE (dns a)"
proof -
  let ?s1 = "snd (dns_make_name (dns a) h)"
  let ?s2 = "snd (dns_make_query ?s1 DNS_QTYPE_A)"
  from send_datagram_Some[OF snd]
  have s2: "dns (send_adapter (mobile_dns_query_send a ok h)) = ?s2"
    and d: "d = take (buffer_len ?s2) (buffer ?s2)" by simp_all
  have frame: "dns_id ?s1 = dns_id (dns a)" "buffer ?s1 = buffer (dns a)"
    using make_name_frame[of "dns a" h] by simp_all
  have cap1: "DNS_HEADER_SIZE \<le> length (buffer ?s1)"
    using cap frame by (simp add: MOBILE_DNS_PACKET_SIZE_def)
  have len: "2 \<le> buffer_len ?s2"
    by (simp add: make_query_buffer_len DNS_HEADER_SIZE_def)
  have d0: "d ! 0 = buffer ?s2 ! 0" and d1: "d ! 1 = buffer ?s2 ! 1"
    using len d by simp_all
  from make_query_wire_id[OF cap1, of DNS_QTYPE_A] d0 d1 frame
  have bytes: "d ! 0 = ucast (drop_bit 8 (dns_id (dns a) + 1) AND 0xFF)"
    "d ! 1 = ucast ((dns_id (dns a) + 1) AND 0xFF)" by simp_all
  then have "wire_id d = dns_id (dns a) + 1"
    by (simp add: wire_id_def be16_split)
  moreover have "dns_id ?s2 = dns_id (dns a) + 1"
    by (simp add: make_query_id frame)
  moreover have "length (buffer ?s2) = length (buffer (dns a))"
    by (simp add: make_query_capacity frame)
  ultimately show ?thesis
    using bytes s2 by (simp add: MOBILE_DNS_PACKET_SIZE_def)
qed

lemma verify_id_pass:
  assumes "DNS_HEADER_SIZE \<le> buffer_len s" and "wire_id (buffer s) = dns_id s"
  shows "dns_verify_response s \<noteq> Some (- 1, w)"
proof
  assume a: "dns_verify_response s = Some (- 1, w)"
  show False
  proof (cases "response_flags s AND 0xFBFF = 0x8180")
    case True
    have "1 \<le> uint x" if "\<not> x < 1" for x :: u16
      using that by (simp add: word_less_def)
    then show ?thesis
      using a assms True
      by (fastforce simp add: dns_verify_response_def response_flags_def wire_id_def Let_def
          split: if_splits option.splits)
  next
    case False
    have "be16 (buffer s ! 0) (buffer s ! 1) = dns_id s"
      using assms(2) unfolding wire_id_def .
    from verify_flags_rejected[OF assms(1) this False] a
    have "uint (response_flags s AND 0xF) = - 1" by simp
    moreover have "0 \<le> uint (response_flags s AND 0xF)" by simp
    ultimately show ?thesis by simp
  qed
qed

text \<open>
  Claim C5. Two consecutive calls of \<^verbatim>\<open>mobile_dns_query_send\<close> that hand a datagram to the
  board (the packet buffer holds at least the header): the id field of the first datagram is
  the old id plus one, the id field of the second is one more (both modulo \<open>2 ^ 16\<close>), so
  the two differ; from \<open>0xFFFF\<close> the id wraps to 0 and both id bytes on the wire are 0; and
  any response with a full header that carries the id of the first datagram passes the
  length and id test of \<^verbatim>\<open>dns_verify_response\<close> (the only \<open>-1\<close> it returns), while one
  that carries another id is rejected by it with \<open>-1\<close>.
\<close>

theorem query_id_fresh_and_wraps:
  assumes cap: "DNS_HEADER_SIZE \<le> MOBILE_DNS_PACKET_SIZE (dns a)"
    and s1: "send_datagram (mobile_dns_query_send a ok1 h1) = Some (d1, dst1)"
    and s2: "send_datagram (mobile_dns_query_send
                (send_adapter (mobile_dns_query_send a ok1 h1)) ok2 h2) = Some (d2, dst2)"
  shows "wire_id d1 = dns_id (dns a) + 1 \<and> wire_id d2 = wire_id d1 + 1 \<and>
         wire_id d1 \<noteq> wire_id d2 \<and>
         (dns_id (dns a) = 0xFFFF \<longrightarrow> wire_id d1 = 0 \<and> d1 ! 0 = 0 \<and> d1 ! 1 = 0) \<and>
         (\<forall>resp n w. DNS_HEADER_SIZE \<le> n \<and> wire_id resp = wire_id d1 \<longrightarrow>
            dns_verify_response ((dns (send_adapter (mobile_dns_query_send a ok1 h1)))
              \<lparr>buffer := resp, buffer_len := n\<rparr>) \<noteq> Some (- 1, w)) \<and>
         (\<forall>resp n. DNS_HEADER_SIZE \<le> n \<and> wire_id resp \<noteq> wire_id d1 \<longrightarrow>
            dns_verify_response ((dns (send_adapter (mobile_dns_query_send a ok1 h1)))
              \<lparr>buffer := resp, buffer_len := n\<rparr>) = Some (- 1, None))"
proof -
  let ?a1 = "send_adapter (mobile_dns_query_send a ok1 h1)"
  note w1 = send_wire_id[OF cap s1]
  then have cap1: "DNS_HEADER_SIZE \<le> MOBILE_DNS_PACKET_SIZE (dns ?a1)"
    using cap by simp
  note w2 = send_wire_id[OF cap1 s2]
  have id1: "wire_id d1 = dns_id (dns a) + 1" using w1 by simp
  have id2: "wire_id d2 = wire_id d1 + 1" using w1 w2 by simp
  have neq: "wire_id d1 \<noteq> wire_id d2" using id2 by simp
  have wrap: "wire_id d1 = 0 \<and> d1 ! 0 = 0 \<and> d1 ! 1 = 0" if "dns_id (dns a) = 0xFFFF"
    using w1 that by simp
  have acc: "dns_verify_response ((dns ?a1)\<lparr>buffer := resp, buffer_len := n\<rparr>) \<noteq> Some (- 1, w)"
    if "DNS_HEADER_SIZE \<le> n" "wire_id resp = wire_id d1" for resp n w
    using that w1 by (intro verify_id_pass) simp_all
  have rej: "dns_verify_response ((dns ?a1)\<lparr>buffer := resp, buffer_len := n\<rparr>) = Some (- 1, None)"
    if "DNS_HEADER_SIZE \<le> n" "wire_id resp \<noteq> wire_id d1" for resp n
  proof -
    have "wire_id d1 = dns_id (dns ?a1)" using w1 by simp
    with that(2) have "be16 (resp ! 0) (resp ! 1) \<noteq> dns_id (dns ?a1)"
      by (simp add: wire_id_def)
    then show ?thesis
      using that(1) by (simp add: dns_verify_response_def)
  qed
  show ?thesis using id1 id2 neq wrap acc rej by blast
qed

theorem query_id_fresh_and_wraps_witness:
  "DNS_HEADER_SIZE \<le> MOBILE_DNS_PACKET_SIZE (dns ex_adapter_ffff) \<and>
   send_datagram (mobile_dns_query_send ex_adapter_ffff True [0x61]) =
     Some ([0, 0, 1, 0, 0, 1, 0, 0, 0, 0, 0, 0, 1, 0x61, 0, 0, 1, 0, 1], ex_resolver) \<and>
   send_datagram (mobile_dns_query_send
       (send_adapter (mobile_dns_query_send ex_adapter_ffff True [0x61])) True [0x61]) =
     Some ([0, 1, 1, 0, 0, 1, 0, 0, 0, 0, 0, 0, 1, 0x61, 0, 0, 1, 0, 1], ex_resolver) \<and>
   wire_id [0, 0, 1, 0, 0, 1, 0, 0, 0, 0, 0, 0, 1, 0x61, 0, 0, 1, 0, 1] = 0 \<and>
   wire_id [0, 1, 1, 0, 0, 1, 0, 0, 0, 0, 0, 0, 1, 0x61, 0, 0, 1, 0, 1] = 1 \<and>
   fst (the (mobile_dns_query_recv (send_adapter (mobile_dns_query_send ex_adapter_ffff True [0x61]))
     (Sock_Datagram resp_a_id0 ex_resolver))) = 1 \<and>
   snd (snd (the (mobile_dns_query_recv (send_adapter (mobile_dns_query_send ex_adapter_ffff True [0x61]))
     (Sock_Datagram resp_a_id0 ex_resolver)))) = Some [1, 2, 3, 4]"
proof -
  have h1: "DNS_HEADER_SIZE \<le> MOBILE_DNS_PACKET_SIZE (dns ex_adapter_ffff)" by code_simp
  have h2: "send_datagram (mobile_dns_query_send ex_adapter_ffff True [0x61]) =
     Some ([0, 0, 1, 0, 0, 1, 0, 0, 0, 0, 0, 0, 1, 0x61, 0, 0, 1, 0, 1], ex_resolver)"
    by code_simp
  have h3: "send_datagram (mobile_dns_query_send
       (send_adapter (mobile_dns_query_send ex_adapter_ffff True [0x61])) True [0x61]) =
     Some ([0, 1, 1, 0, 0, 1, 0, 0, 0, 0, 0, 0, 1, 0x61, 0, 0, 1, 0, 1], ex_resolver)"
    by code_simp
  have r1: "fst (the (mobile_dns_query_recv (send_adapter (mobile_dns_query_send ex_adapter_ffff True [0x61]))
     (Sock_Datagram resp_a_id0 ex_resolver))) = 1" by code_simp
  have r2: "snd (snd (the (mobile_dns_query_recv (send_adapter (mobile_dns_query_send ex_adapter_ffff True [0x61]))
     (Sock_Datagram resp_a_id0 ex_resolver)))) = Some [1, 2, 3, 4]" by code_simp
  have i: "dns_id (dns ex_adapter_ffff) = 0xFFFF" by code_simp
  show ?thesis
    using h1 h2 h3 r1 r2 i query_id_fresh_and_wraps[OF h1 h2 h3]
    by simp
qed

subsection \<open>A cycle of compression pointers\<close>

lemma cycle_bytes:
  "buffer ex_dns_cycle ! 12 = 0xC0" "buffer ex_dns_cycle ! 13 = 0x0C" "buffer_len ex_dns_cycle = 18"
  "name_len ex_dns_cycle = 3"
  by (simp_all add: ex_dns_cycle_def resp_cycle_def ex_dns_def)

lemma compare_loop_cycle_aux:
  assumes "compare_loop s n c e = Some y"
  shows "\<not> (s = ex_dns_cycle \<and> c = 12)"
proof (rule compare_loop.raw_induct
    [where P = "\<lambda>s n c e y. \<not> (s = ex_dns_cycle \<and> c = 12)", OF _ assms], goal_cases)
  case (1 f s n c e y)
  show ?case
  proof
    assume "s = ex_dns_cycle \<and> c = 12"
    then have s: "s = ex_dns_cycle" and c: "c = 12" by simp_all
    from 1(2) have "f ex_dns_cycle n 12 (if e < 0 then 14 else e) = Some y"
      unfolding s c by (cases "e < 0") (simp_all add: cycle_bytes)
    from 1(1)[OF this] show False by simp
  qed
qed

lemma compare_loop_cycle: "compare_loop ex_dns_cycle n 12 e = None"
  using compare_loop_cycle_aux[of ex_dns_cycle n 12 e] by (cases "compare_loop ex_dns_cycle n 12 e") auto

text \<open>
  Claim C2. On the response \<open>resp_cycle\<close>, whose question name is a pointer to itself, the
  walk of \<^verbatim>\<open>dns_compare_name\<close> from offset 12 does not return, and neither does
  \<^verbatim>\<open>mobile_dns_query_recv\<close> when the configured resolver sends it: the loop follows the
  pointer back to offset 12 for ever.
\<close>

theorem compare_name_pointer_cycle_diverges:
  "dns_compare_name ex_dns_cycle 12 = None \<and>
   mobile_dns_query_recv ex_adapter (Sock_Datagram resp_cycle ex_resolver) = None"
proof -
  have c: "dns_compare_name ex_dns_cycle 12 = None"
    by (simp add: dns_compare_name_def cycle_bytes compare_loop_cycle)
  have s: "(dns ex_adapter)\<lparr>buffer := memcpy (buffer (dns ex_adapter)) 0 resp_cycle, buffer_len := 18\<rparr> = ex_dns_cycle"
    by (simp add: ex_adapter_def ex_dns_def ex_dns_cycle_def memcpy_def resp_cycle_def)
  have v: "dns_verify_response ex_dns_cycle = None"
    apply (simp add: dns_verify_response_def Let_def c DNS_HEADER_SIZE_def)
    apply (simp add: ex_dns_cycle_def resp_cycle_def ex_dns_def be16_def)
    done
  have l: "length resp_cycle = 18" "MOBILE_DNS_PACKET_SIZE (dns ex_adapter) = 40"
    "addr_type (addr_send ex_adapter) = addr_type ex_resolver" "resp_cycle \<noteq> []" "addr4_equal (addr_send ex_adapter) ex_resolver"
    by (simp_all add: resp_cycle_def MOBILE_DNS_PACKET_SIZE_def ex_adapter_def ex_dns_def addr_send_def ex_resolver_def addr4_equal_def DNS_PORT_def)
  show ?thesis
    using c v s l
    by (simp add: mobile_dns_query_recv_def Let_def)
qed

subsection \<open>\<^verbatim>\<open>dns_make_name\<close>: which host names are refused\<close>

lemma split_labels_nonempty: "split_labels cs \<noteq> []"
  by (cases cs) (simp_all split: list.splits)

lemma split_labels_Cons:
  "split_labels (c # cs) =
     (if c = 0x2E then [] # split_labels cs
      else (c # hd (split_labels cs)) # tl (split_labels cs))"
  using split_labels_nonempty[of cs] by (cases "split_labels cs") simp_all

declare split_labels.simps(2) [simp del]

lemma make_name_loop_cursor:
  "fst (make_name_loop nm d len cs) \<Longrightarrow> snd (snd (make_name_loop nm d len cs)) = d + length cs"
  by (induction nm d len cs rule: make_name_loop.induct) (auto split: if_splits)

lemma make_name_loop_ok:
  assumes "len < d" "d < length nm" "unat (nm ! len) = k" "k \<le> 63"
  shows "fst (make_name_loop nm d len cs) \<longleftrightarrow>
           k + length (hd (split_labels cs)) \<le> 63 \<and>
           (\<forall>l\<in>set (tl (split_labels cs)). length l \<le> 63) \<and>
           d + length cs < length nm"
  using assms
proof (induction cs arbitrary: nm d len k)
  case Nil
  then show ?case by simp
next
  case (Cons c cs)
  have ne: "split_labels cs \<noteq> []" by (rule split_labels_nonempty)
  then have all: "(\<forall>l\<in>set (split_labels cs). length l \<le> 63) \<longleftrightarrow>
      length (hd (split_labels cs)) \<le> 63 \<and> (\<forall>l\<in>set (tl (split_labels cs)). length l \<le> 63)"
    by (cases "split_labels cs") simp_all
  show ?case
  proof (cases "int d \<ge> int (length nm) - 1")
    case True
    then show ?thesis by simp
  next
    case room: False
    show ?thesis
    proof (cases "c = 0x2E")
      case True
      have "fst (make_name_loop (nm[d := 0]) (d + 1) d cs) \<longleftrightarrow>
           0 + length (hd (split_labels cs)) \<le> 63 \<and>
           (\<forall>l\<in>set (tl (split_labels cs)). length l \<le> 63) \<and>
           (d + 1) + length cs < length (nm[d := 0])"
        using room Cons.prems by (intro Cons.IH) simp_all
      then show ?thesis
        using True room Cons.prems all by (simp add: split_labels_Cons)
    next
      case nodot: False
      show ?thesis
      proof (cases "nm ! len \<ge> 63")
        case True
        then have "63 \<le> k" using Cons.prems by (simp add: word_le_nat_alt)
        then show ?thesis using True nodot room by (simp add: split_labels_Cons)
      next
        case False
        then have k: "k < 63" using Cons.prems by (simp add: word_le_nat_alt)
        have "unat (nm ! len + 1) = k + 1"
          using k Cons.prems by (simp add: unat_word_ariths)
        then have u: "unat (((nm[d := c])[len := nm ! len + 1]) ! len) = k + 1"
          using Cons.prems by simp
        have "fst (make_name_loop ((nm[d := c])[len := nm ! len + 1]) (d + 1) len cs) \<longleftrightarrow>
           (k + 1) + length (hd (split_labels cs)) \<le> 63 \<and>
           (\<forall>l\<in>set (tl (split_labels cs)). length l \<le> 63) \<and>
           (d + 1) + length cs < length ((nm[d := c])[len := nm ! len + 1])"
          using room Cons.prems k u by (intro Cons.IH) simp_all
        then show ?thesis
          using False nodot room by (simp add: split_labels_Cons)
      qed
    qed
  qed
qed

lemma make_name_fst: "fst (dns_make_name s host) = fst (make_name_loop ((name s)[0 := 0]) 1 0 host)"
  by (simp add: dns_make_name_def split: prod.splits bool.splits)

lemma make_name_len:
  "fst (dns_make_name s host) \<Longrightarrow> name_len (snd (dns_make_name s host)) = length host + 2"
  using make_name_loop_cursor[of "(name s)[0 := 0]" 1 0 host]
  by (auto simp add: dns_make_name_def split: prod.splits bool.splits)




subsection \<open>The offset \<^verbatim>\<open>dns_compare_name\<close> writes back\<close>

declare first_stop.simps [simp del]

lemma first_stop_zero: "pos < n \<Longrightarrow> buf ! pos = 0 \<Longrightarrow> first_stop buf n pos = Some (Terminator pos)"
  by (subst first_stop.simps) simp

lemma first_stop_pointer:
  "pos < n \<Longrightarrow> buf ! pos \<noteq> 0 \<Longrightarrow> buf ! pos AND 0xC0 = 0xC0 \<Longrightarrow>
   first_stop buf n pos = Some (First_pointer pos)"
  by (subst first_stop.simps) simp

lemma first_stop_label:
  "pos < n \<Longrightarrow> buf ! pos \<noteq> 0 \<Longrightarrow> buf ! pos AND 0xC0 \<noteq> 0xC0 \<Longrightarrow> buf ! pos AND 0xC0 = 0 \<Longrightarrow>
   first_stop buf n pos = first_stop buf n (pos + unat (buf ! pos) + 1)"
  by (subst first_stop.simps) simp

lemma compare_loop_end:
  assumes "compare_loop s n c e0 = Some y"
  shows "end_ok s c e0 y"
proof (rule compare_loop.raw_induct[where P = "\<lambda>s n c e0 y. end_ok s c e0 y", OF _ assms], goal_cases)
  case (1 f s n c e0 y)
  note IH = 1(1) and eq = 1(2)
  show ?case
  proof (cases "buffer s ! c = 0")
    case True
    with eq show ?thesis
      by (auto simp: end_ok_def first_stop_zero split: if_splits)
  next
    case nz: False
    show ?thesis
    proof (cases "buffer s ! c AND 0xC0 = 0xC0")
      case True
      let ?off = "unat (push_bit 8 (ucast (buffer s ! c AND 0x3F)) OR
                              (ucast (buffer s ! (c + 1)) :: u16))"
      let ?e' = "if e0 < 0 then int c + 2 else e0"
      show ?thesis
      proof (cases "c + 2 > buffer_len s \<or> ?off \<ge> buffer_len s")
        case True
        with eq nz \<open>buffer s ! c AND 0xC0 = 0xC0\<close> have "y = (- 1, None)"
          by (auto simp: Let_def split: if_splits)
        then show ?thesis by (simp add: end_ok_def)
      next
        case False
        with eq nz \<open>buffer s ! c AND 0xC0 = 0xC0\<close> have "f s n ?off ?e' = Some y"
          by (simp add: Let_def)
        from IH[OF this] have ok: "end_ok s ?off ?e' y" .
        show ?thesis
          unfolding end_ok_def
        proof (intro allI impI)
          fix r e assume y: "y = (r, Some e)" and c: "c < buffer_len s"
          from ok y False have r: "r = 0" and e: "int e = ?e'"
            by (auto simp: end_ok_def split: if_splits)
          show "r = 0 \<and> (if 0 \<le> e0 then int e = e0
                 else \<exists>p. first_stop (buffer s) (buffer_len s) c = Some p \<and> e = end_offset p)"
          proof (cases "0 \<le> e0")
            case True
            with r e show ?thesis by simp
          next
            case neg: False
            then have "e = c + 2" using e by simp
            moreover have "first_stop (buffer s) (buffer_len s) c = Some (First_pointer c)"
              using c nz \<open>buffer s ! c AND 0xC0 = 0xC0\<close> by (rule first_stop_pointer)
            ultimately show ?thesis using r neg by simp
          qed
        qed
      qed
    next
      case np: False
      show ?thesis
      proof (cases "buffer s ! c AND 0xC0 = 0x00")
        case lab: True
        let ?len = "unat (buffer s ! c) + 1"
        show ?thesis
        proof (cases "n + ?len \<ge> name_len s \<or> c + ?len \<ge> buffer_len s \<or>
                      \<not> cmp_bytes (buffer s) (name s) c n ?len")
          case True
          with eq nz np lab have "y = (- 1, None)"
            by (auto simp: Let_def simp del: cmp_bytes.simps split: if_splits)
          then show ?thesis by (simp add: end_ok_def)
        next
          case False
          with eq nz np lab have "f s (n + ?len) (c + ?len) e0 = Some y"
            by (simp add: Let_def del: cmp_bytes.simps)
          from IH[OF this] have ok: "end_ok s (c + ?len) e0 y" .
          have fs: "first_stop (buffer s) (buffer_len s) c =
                    first_stop (buffer s) (buffer_len s) (c + ?len)" if "c < buffer_len s"
            using first_stop_label[OF that nz np lab] by (simp add: add.assoc)
          show ?thesis
            using ok False fs by (auto simp: end_ok_def)
        qed
      next
        case False
        with eq nz np have "y = (0, None)" by simp
        then show ?thesis by (simp add: end_ok_def)
      qed
    qed
  qed
qed

text \<open>
  Claim C6. When \<^verbatim>\<open>dns_compare_name\<close> stores to \<^verbatim>\<open>*offset\<close> it returns 0, and the value
  stored is the position of the first compression pointer of the name plus 2 if the name,
  read label by label from \<open>offset\<close>, reaches a pointer, and otherwise the position of the
  terminating zero byte plus 1. Once \<^verbatim>\<open>end\<close> is set (\<open>0 \<le> e0\<close>, after the first pointer),
  the rest of the walk, whatever pointers it follows, stores exactly that value.
\<close>

theorem compare_name_end_offset:
  "(dns_compare_name s offset = Some (r, Some e) \<longrightarrow>
      r = 0 \<and> (\<exists>p. first_stop (buffer s) (buffer_len s) offset = Some p \<and> e = end_offset p)) \<and>
   (0 \<le> e0 \<and> c < buffer_len s \<and> compare_loop s n c e0 = Some (r', Some e') \<longrightarrow>
      r' = 0 \<and> int e' = e0)"
proof -
  have a: "r = 0 \<and> (\<exists>p. first_stop (buffer s) (buffer_len s) offset = Some p \<and> e = end_offset p)"
    if "dns_compare_name s offset = Some (r, Some e)"
  proof -
    from that have lt: "offset < buffer_len s"
      and loop: "compare_loop s 0 offset (- 1) = Some (r, Some e)"
      by (auto simp: dns_compare_name_def split: if_splits)
    from compare_loop_end[OF loop] lt show ?thesis
      by (simp add: end_ok_def)
  qed
  have b: "r' = 0 \<and> int e' = e0"
    if "0 \<le> e0" "c < buffer_len s" "compare_loop s n c e0 = Some (r', Some e')"
    using compare_loop_end[OF that(3)] that(1,2) by (simp add: end_ok_def)
  show ?thesis using a b by blast
qed

theorem compare_name_end_offset_witness:
  "dns_compare_name ex_dns_two_pointers 12 = Some (0, Some 15) \<and>
   first_stop (buffer ex_dns_two_pointers) (buffer_len ex_dns_two_pointers) 12 = Some (Terminator 14) \<and>
   dns_compare_name ex_dns_two_pointers 35 = Some (0, Some 37) \<and>
   first_stop (buffer ex_dns_two_pointers) (buffer_len ex_dns_two_pointers) 35 = Some (First_pointer 35) \<and>
   (0::int) \<le> 37 \<and> 19 < buffer_len ex_dns_two_pointers \<and>
   compare_loop ex_dns_two_pointers 0 19 37 = Some (0, Some 37)"
proof -
  have h1: "dns_compare_name ex_dns_two_pointers 12 = Some (0, Some 15)" by code_simp
  have h2: "dns_compare_name ex_dns_two_pointers 35 = Some (0, Some 37)" by code_simp
  have h3: "compare_loop ex_dns_two_pointers 0 19 37 = Some (0, Some 37)" by code_simp
  have f1: "first_stop (buffer ex_dns_two_pointers) (buffer_len ex_dns_two_pointers) 12 = Some (Terminator 14)"
    by code_simp
  have f2: "first_stop (buffer ex_dns_two_pointers) (buffer_len ex_dns_two_pointers) 35 = Some (First_pointer 35)"
    by code_simp
  have b: "19 < buffer_len ex_dns_two_pointers" by code_simp
  show ?thesis
    using h1 h2 h3 f1 f2 b
      compare_name_end_offset[of ex_dns_two_pointers 12 0 15 37 19 0 0 37]
    by simp
qed

subsection \<open>The answer scan\<close>

lemma wire_name_pos: "wire_name buf n pos bytes \<Longrightarrow> pos < n"
  by (induction rule: wire_name.induct) simp_all

lemma wire_name_nonempty: "wire_name buf n pos bytes \<Longrightarrow> bytes \<noteq> []"
  by (induction rule: wire_name.induct) simp_all

lemma pointer_nonzero: "(b::u8) AND 0xC0 = 0xC0 \<Longrightarrow> b \<noteq> 0"
  by auto

lemma cmp_bytes_iff:
  "c + len \<le> length buf \<Longrightarrow> n + len \<le> length nm \<Longrightarrow>
   cmp_bytes buf nm c n len \<longleftrightarrow> take len (drop c buf) = take len (drop n nm)"
proof (induction len arbitrary: c n)
  case 0
  then show ?case by simp
next
  case (Suc len)
  then have c: "c < length buf" and n: "n < length nm" by simp_all
  have "take (Suc len) (drop c buf) = buf ! c # take len (drop (Suc c) buf)"
    using c by (simp add: Cons_nth_drop_Suc[symmetric])
  moreover have "take (Suc len) (drop n nm) = nm ! n # take len (drop (Suc n) nm)"
    using n by (simp add: Cons_nth_drop_Suc[symmetric])
  moreover have "cmp_bytes buf nm (c + 1) (n + 1) len \<longleftrightarrow>
      take len (drop (c + 1) buf) = take len (drop (n + 1) nm)"
    using Suc.prems by (intro Suc.IH) simp_all
  ultimately show ?case by simp
qed


lemma compare_loop_complete:
  assumes "wire_name (buffer s) (buffer_len s) c bytes"
    and "name_len s \<le> length (name s)" and "buffer_len s \<le> length (buffer s)"
    and "take (length bytes) (drop n (name s)) = bytes" and "n + length bytes \<le> name_len s"
  shows "\<exists>x. compare_loop s n c e = Some (0, Some x)"
  using assms
proof (induction arbitrary: n e rule: wire_name.induct)
  case (wire_end pos)
  then have "n < length (name s)" by simp
  with wire_end have "name s ! n = 0"
    by (simp add: take_Suc_conv_app_nth)
  with wire_end show ?case
    by (subst compare_loop.simps) simp
next
  case (wire_pointer pos bytes)
  let ?off = "unat (push_bit 8 (ucast (buffer s ! pos AND 0x3F)) OR
                    (ucast (buffer s ! (pos + 1)) :: u16))"
  have off: "?off < buffer_len s"
    using wire_pointer.hyps(4) by (rule wire_name_pos)
  have nz: "buffer s ! pos \<noteq> 0"
    using wire_pointer.hyps(2) by (rule pointer_nonzero)
  obtain x where "compare_loop s n ?off (if e < 0 then int pos + 2 else e) = Some (0, Some x)"
    using wire_pointer.IH[OF wire_pointer.prems] by blast
  with wire_pointer.hyps off nz show ?case
    by (subst compare_loop.simps) (simp add: Let_def)
next
  case (wire_label pos rest)
  let ?len = "unat (buffer s ! pos) + 1"
  let ?lab = "take ?len (drop pos (buffer s))"
  have next_pos: "pos + ?len < buffer_len s"
    using wire_label.hyps(4) by (rule wire_name_pos)
  have rest: "rest \<noteq> []"
    using wire_label.hyps(4) by (rule wire_name_nonempty)
  have lab_len: "length ?lab = ?len"
    using next_pos wire_label.prems(2) by simp
  have total: "n + ?len + length rest \<le> name_len s"
    using wire_label.prems(4) lab_len by (simp add: add.assoc)
  have eq: "take (?len + length rest) (drop n (name s)) = ?lab @ rest"
    using wire_label.prems(3) lab_len by simp
  have lab: "take ?len (drop n (name s)) = ?lab"
  proof -
    have "take ?len (take (?len + length rest) (drop n (name s))) = take ?len (?lab @ rest)"
      using eq by simp
    then show ?thesis using lab_len by (simp add: min_def)
  qed
  have tail: "take (length rest) (drop (n + ?len) (name s)) = rest"
  proof -
    have "drop ?len (take (?len + length rest) (drop n (name s))) = drop ?len (?lab @ rest)"
      using eq by simp
    then show ?thesis using lab_len by (simp add: drop_take add.commute)
  qed
  have cmp: "cmp_bytes (buffer s) (name s) pos n ?len"
    using next_pos total wire_label.prems(1,2) lab
    by (subst cmp_bytes_iff) simp_all
  have small: "n + ?len < name_len s"
    using total rest by (cases rest) simp_all
  obtain x where "compare_loop s (n + ?len) (pos + ?len) e = Some (0, Some x)"
    using wire_label.IH[OF wire_label.prems(1,2) tail] total by blast
  moreover have "buffer s ! pos AND 0xC0 \<noteq> 0xC0"
    using wire_label.hyps(3) by simp
  ultimately show ?case
    using wire_label.hyps(1,2,3) next_pos small cmp
    by (subst compare_loop.simps) (simp add: Let_def del: cmp_bytes.simps)
qed

lemma compare_loop_sound:
  assumes "compare_loop s n c e = Some y"
  shows "name_ok s n c y"
proof (rule compare_loop.raw_induct[where P = "\<lambda>s n c e y. name_ok s n c y", OF _ assms], goal_cases)
  case (1 f s n c e y)
  note IH = 1(1) and eq = 1(2)
  show ?case
    unfolding name_ok_def
  proof (intro impI allI)
    fix x
    assume nl: "name_len s \<le> length (name s)" and bl: "buffer_len s \<le> length (buffer s)"
      and c: "c < buffer_len s" and n: "n < name_len s" and y: "y = (0, Some x)"
    show "\<exists>bytes. wire_name (buffer s) (buffer_len s) c bytes \<and>
                  take (length bytes) (drop n (name s)) = bytes \<and>
                  n + length bytes \<le> name_len s"
    proof (cases "buffer s ! c = 0")
      case True
      with eq y have "name s ! n = 0"
        by (auto split: if_splits)
      moreover have "n < length (name s)" using n nl by simp
      ultimately have "take (length [0::u8]) (drop n (name s)) = [0]"
        by (simp add: take_Suc_conv_app_nth)
      moreover have "wire_name (buffer s) (buffer_len s) c [0]"
        using c True by (rule wire_end)
      moreover have "n + length [0::u8] \<le> name_len s" using n by simp
      ultimately show ?thesis by blast
    next
      case nz: False
      show ?thesis
      proof (cases "buffer s ! c AND 0xC0 = 0xC0")
        case ptr: True
        let ?off = "unat (push_bit 8 (ucast (buffer s ! c AND 0x3F)) OR
                              (ucast (buffer s ! (c + 1)) :: u16))"
        let ?e' = "if e < 0 then int c + 2 else e"
        from eq nz ptr y have in2: "c + 2 \<le> buffer_len s" and off: "?off < buffer_len s"
          and call: "f s n ?off ?e' = Some y"
          by (auto simp: Let_def split: if_splits)
        from IH[OF call] nl bl off n y
        obtain bytes where b: "wire_name (buffer s) (buffer_len s) ?off bytes"
          "take (length bytes) (drop n (name s)) = bytes" "n + length bytes \<le> name_len s"
          unfolding name_ok_def by blast
        have "wire_name (buffer s) (buffer_len s) c bytes"
          using c ptr in2 b(1) by (rule wire_pointer)
        with b show ?thesis by blast
      next
        case np: False
        show ?thesis
        proof (cases "buffer s ! c AND 0xC0 = 0x00")
          case lab: True
          let ?len = "unat (buffer s ! c) + 1"
          let ?lab = "take ?len (drop c (buffer s))"
          from eq nz np lab y have n2: "n + ?len < name_len s" and c2: "c + ?len < buffer_len s"
            and cmp: "cmp_bytes (buffer s) (name s) c n ?len"
            and call: "f s (n + ?len) (c + ?len) e = Some y"
            by (auto simp: Let_def simp del: cmp_bytes.simps split: if_splits)
          from IH[OF call] nl bl c2 n2 y
          obtain rest where r: "wire_name (buffer s) (buffer_len s) (c + ?len) rest"
            "take (length rest) (drop (n + ?len) (name s)) = rest"
            "n + ?len + length rest \<le> name_len s"
            unfolding name_ok_def by blast
          have lab_eq: "?lab = take ?len (drop n (name s))"
            using cmp c2 n2 nl bl by (subst (asm) cmp_bytes_iff) simp_all
          have lab_len: "length ?lab = ?len" using c2 bl by simp
          have dd: "drop ?len (drop n (name s)) = drop (n + ?len) (name s)"
            by (simp add: add.commute)
          have "take (?len + length rest) (drop n (name s)) =
                take ?len (drop n (name s)) @ take (length rest) (drop ?len (drop n (name s)))"
            by (rule take_add)
          then have "take (?len + length rest) (drop n (name s)) = ?lab @ rest"
            unfolding dd using lab_eq r(2) by simp
          then have "take (length (?lab @ rest)) (drop n (name s)) = ?lab @ rest"
            using lab_len by simp
          moreover have "wire_name (buffer s) (buffer_len s) c (?lab @ rest)"
            using c nz lab r(1) by (rule wire_label)
          moreover have "n + length (?lab @ rest) \<le> name_len s"
            using r(3) lab_len by simp
          ultimately show ?thesis by blast
        next
          case False
          with eq nz np y show ?thesis by simp
        qed
      qed
    qed
  qed
qed


lemma compare_name_returns:
  assumes "wf_dns s" and "spells_query s offset"
  shows "\<exists>p. first_stop (buffer s) (buffer_len s) offset = Some p \<and>
             dns_compare_name s offset = Some (0, Some (end_offset p))"
proof -
  from assms(2) obtain k where k: "k \<le> name_len s"
    and w: "wire_name (buffer s) (buffer_len s) offset (take k (name s))"
    unfolding spells_query_def by blast
  from assms(1) have nl: "name_len s \<le> length (name s)" and bl: "buffer_len s \<le> length (buffer s)"
    and pos: "0 < name_len s" by (simp_all add: wf_dns_def)
  have len: "length (take k (name s)) = k" using k nl by simp
  have off: "offset < buffer_len s" using w by (rule wire_name_pos)
  have t: "take (length (take k (name s))) (drop 0 (name s)) = take k (name s)"
    unfolding len by simp
  have b: "0 + length (take k (name s)) \<le> name_len s"
    unfolding len using k by simp
  have "\<exists>x. compare_loop s 0 offset (- 1) = Some (0, Some x)"
    using w nl bl t b by (rule compare_loop_complete)
  then obtain x where x: "compare_loop s 0 offset (- 1) = Some (0, Some x)" by blast
  from compare_loop_end[OF x] off
  obtain p where "first_stop (buffer s) (buffer_len s) offset = Some p" "x = end_offset p"
    by (auto simp: end_ok_def)
  with x off pos show ?thesis by (simp add: dns_compare_name_def)
qed

lemma compare_name_stores:
  assumes "wf_dns s" and "dns_compare_name s offset = Some (r, Some x)"
  shows "r = 0 \<and> spells_query s offset"
proof -
  from assms(1) have nl: "name_len s \<le> length (name s)" and bl: "buffer_len s \<le> length (buffer s)"
    and pos: "0 < name_len s" by (simp_all add: wf_dns_def)
  from assms(2) have off: "offset < buffer_len s"
    and loop: "compare_loop s 0 offset (- 1) = Some (r, Some x)"
    by (auto simp: dns_compare_name_def split: if_splits)
  from compare_loop_end[OF loop] off have r: "r = 0" by (simp add: end_ok_def)
  from compare_loop_sound[OF loop] nl bl off pos r
  obtain bytes where b: "wire_name (buffer s) (buffer_len s) offset bytes"
    "take (length bytes) (name s) = bytes" "length bytes \<le> name_len s"
    unfolding name_ok_def by auto
  then have "wire_name (buffer s) (buffer_len s) offset (take (length bytes) (name s))"
    by simp
  with b(3) r show ?thesis unfolding spells_query_def by blast
qed

lemma compare_name_no_store:
  assumes "dns_compare_name s offset = Some (r, None)" and "offset < buffer_len s"
    and "0 < name_len s" and "r = 0"
  shows "buffer s ! offset \<noteq> 0"
proof
  assume z: "buffer s ! offset = 0"
  from assms have "compare_loop s 0 offset (- 1) = Some (0, None)"
    by (simp add: dns_compare_name_def)
  then show False
    using z by (subst (asm) compare_loop.simps) (simp split: if_splits)
qed

lemma be16_high: "drop_bit 8 (be16 hi lo) = ucast hi"
  unfolding be16_def
  by (rule bit_word_eqI) (auto simp: bit_simps dest: bit_imp_le_length)

lemma be16_qtype: "be16 hi lo = qtype_val t \<Longrightarrow> hi = 0"
proof -
  assume a: "be16 hi lo = qtype_val t"
  have "drop_bit 8 (qtype_val t) = 0" by (cases t) simp_all
  with a be16_high[of hi lo] have z: "(ucast hi :: u16) = 0" by simp
  show "hi = 0"
  proof (rule bit_word_eqI)
    fix n assume "n < LENGTH(8)"
    then have "bit hi n = bit (ucast hi :: u16) n" by (simp add: bit_simps)
    with z show "bit hi n = bit (0 :: u8) n" by simp
  qed
qed

lemma get_answer_cases:
  assumes "dns_compare_name s offset = Some (name_cmp, w)"
  shows "dns_get_answer s offset =
     Some (if \<not> rr_in_buffer s (stored offset w) then (- 1, stored offset w)
           else if name_cmp \<noteq> 0 \<or> \<not> answer_filter s (stored offset w)
             then (- 2, rr_next s (stored offset w))
           else (int (stored offset w + DNS_RR_SIZE), rr_next s (stored offset w)))"
  using assms
  by (cases "dns_type s")
     (auto simp add: dns_get_answer_def Let_def rr_in_buffer_def answer_filter_def rr_type_def
        rr_class_def rr_rdlength_def rr_next_def)

lemma rdata_length:
  assumes "buffer_len s \<le> length (buffer s)" and "rr_in_buffer s info"
  shows "length (rr_rdata s info) = rr_rdlength s info"
  using assms by (auto simp add: rr_rdata_def rr_in_buffer_def min_def)

lemma rdata_copy:
  "take 4 (drop (info + DNS_RR_SIZE) (buffer s)) = take 4 (rr_rdata s info)"
  if "4 \<le> rr_rdlength s info"
  using that by (simp add: rr_rdata_def min_def)

lemma filter_rdlength: "answer_filter s info \<Longrightarrow> 4 \<le> rr_rdlength s info"
  by (cases "dns_type s") (simp_all add: answer_filter_def)

lemma accepted_only_if:
  assumes wf: "wf_dns s" and g: "dns_get_answer s offset = Some (r, off')" and r: "0 \<le> r"
  shows "spells_query s offset \<and>
         (\<exists>p. first_stop (buffer s) (buffer_len s) offset = Some p \<and>
              rr_in_buffer s (end_offset p) \<and> answer_filter s (end_offset p) \<and>
              r = int (end_offset p + DNS_RR_SIZE) \<and> off' = rr_next s (end_offset p))"
proof -
  from g obtain name_cmp w where c: "dns_compare_name s offset = Some (name_cmp, w)"
    by (cases "dns_compare_name s offset") (auto simp: dns_get_answer_def)
  let ?info = "stored offset w"
  from get_answer_cases[OF c] g r
  have inb: "rr_in_buffer s ?info" and z: "name_cmp = 0" and f: "answer_filter s ?info"
    and rv: "r = int (?info + DNS_RR_SIZE)" and ov: "off' = rr_next s ?info"
    by (auto split: if_splits)
  from wf have pos: "0 < name_len s" by (simp add: wf_dns_def)
  show ?thesis
  proof (cases w)
    case None
    then have i: "?info = offset" by (simp add: stored_def)
    with inb have "offset < buffer_len s"
      by (simp add: rr_in_buffer_def DNS_RR_SIZE_def)
    with c None z pos have "buffer s ! offset \<noteq> 0"
      by (intro compare_name_no_store[of s offset name_cmp]) simp_all
    moreover from f i have "buffer s ! offset = 0"
      by (intro be16_qtype[of _ "buffer s ! (offset + 1)" "dns_type s"])
         (simp add: answer_filter_def rr_type_def)
    ultimately show ?thesis by simp
  next
    case (Some x)
    with c wf have sq: "spells_query s offset"
      using compare_name_stores[of s offset name_cmp x] by simp
    from compare_name_returns[OF wf sq] c Some
    obtain p where "first_stop (buffer s) (buffer_len s) offset = Some p" "x = end_offset p"
      by auto
    with sq inb f rv ov Some show ?thesis by (simp add: stored_def)
  qed
qed

text \<open>
  The state that \<^verbatim>\<open>mobile_dns_query_recv\<close> parses after a query has been sent is well-formed,
  whatever datagram arrives.
\<close>

lemma make_name_loop_length:
  "length (fst (snd (make_name_loop nm d len cs))) = length nm"
  by (induction nm d len cs rule: make_name_loop.induct) simp_all

lemma make_name_wf:
  assumes "2 \<le> MOBILE_DNS_MAX_NAME_SIZE s" and "fst (dns_make_name s host)"
  shows "0 < name_len (snd (dns_make_name s host)) \<and>
         name_len (snd (dns_make_name s host)) \<le> length (name (snd (dns_make_name s host)))"
proof -
  let ?r = "make_name_loop ((name s)[0 := 0]) 1 0 host"
  have ok: "fst ?r" using assms(2) by (simp add: make_name_fst)
  have z: "unat ((name s)[0 := 0] ! 0) = 0"
    using assms(1) by (cases "name s") (simp_all add: MOBILE_DNS_MAX_NAME_SIZE_def)
  have "fst ?r \<longleftrightarrow>
           0 + length (hd (split_labels host)) \<le> 63 \<and>
           (\<forall>l\<in>set (tl (split_labels host)). length l \<le> 63) \<and>
           1 + length host < length ((name s)[0 := 0])"
    using assms(1) z by (intro make_name_loop_ok) (simp_all add: MOBILE_DNS_MAX_NAME_SIZE_def)
  with ok have fits: "length host + 2 \<le> length (name s)" by simp
  have len: "length (name (snd (dns_make_name s host))) = length (name s)"
    using make_name_loop_length[of "(name s)[0 := 0]" 1 0 host]
    by (cases "make_name_loop ((name s)[0 := 0]) 1 0 host")
       (auto simp add: dns_make_name_def split: bool.splits)
  show ?thesis
    using make_name_len[OF assms(2)] fits len by simp
qed

lemma recv_state_wf:
  assumes "2 \<le> MOBILE_DNS_MAX_NAME_SIZE (dns a)"
    and "send_datagram (mobile_dns_query_send a ok h) = Some (d, dst)"
  shows "wf_dns ((dns (send_adapter (mobile_dns_query_send a ok h)))
           \<lparr>buffer := memcpy (buffer (dns (send_adapter (mobile_dns_query_send a ok h)))) 0
                         (take (MOBILE_DNS_PACKET_SIZE (dns (send_adapter (mobile_dns_query_send a ok h))))
                               datagram),
            buffer_len := length (take (MOBILE_DNS_PACKET_SIZE
                                   (dns (send_adapter (mobile_dns_query_send a ok h)))) datagram)\<rparr>)"
proof -
  let ?s1 = "snd (dns_make_name (dns a) h)"
  let ?s2 = "snd (dns_make_query ?s1 DNS_QTYPE_A)"
  from send_datagram_Some[OF assms(2)]
  have s2: "dns (send_adapter (mobile_dns_query_send a ok h)) = ?s2" by simp
  have ok: "fst (dns_make_name (dns a) h)"
    using assms(2) by (auto simp: mobile_dns_query_send_def split: prod.splits bool.splits)
  have nm: "name ?s2 = name ?s1" "name_len ?s2 = name_len ?s1"
    by (simp_all add: dns_make_query_def Let_def)
  show ?thesis
    unfolding s2 wf_dns_def
    using make_name_wf[OF assms(1) ok] nm
    by (simp add: length_memcpy MOBILE_DNS_PACKET_SIZE_def)
qed


lemma ex_owner_pointer:
  assumes "35 \<le> n" and "pos = 19 \<or> pos = 33"
  shows "wire_name (resp_cname_a @ replicate 15 0) n pos [1, 0x61, 0]"
proof -
  let ?b = "resp_cname_a @ replicate 15 0"
  have e: "wire_name ?b n 14 [0]"
    by (rule wire_end) (use assms(1) in \<open>simp_all add: resp_cname_a_def\<close>)
  have "wire_name ?b n 12 (take (unat (?b ! 12) + 1) (drop 12 ?b) @ [0])"
    by (rule wire_label) (use assms(1) e in \<open>simp_all add: resp_cname_a_def\<close>)
  then have l: "wire_name ?b n 12 [1, 0x61, 0]"
    by (simp add: resp_cname_a_def)
  have "wire_name ?b n 19 [1, 0x61, 0]"
    by (rule wire_pointer) (use assms(1) l in \<open>simp_all add: resp_cname_a_def\<close>)
  moreover have "wire_name ?b n 33 [1, 0x61, 0]"
    by (rule wire_pointer) (use assms(1) l in \<open>simp_all add: resp_cname_a_def\<close>)
  ultimately show ?thesis
    using assms(2) by blast
qed



subsection \<open>The public send and receive pair\<close>

lemma send_sets_type_A:
  assumes "send_datagram (mobile_dns_query_send a ok h) = Some (d, dst)"
  shows "dns_type (dns (send_adapter (mobile_dns_query_send a ok h))) = DNS_QTYPE_A"
  using send_datagram_Some[OF assms] by (simp add: dns_make_query_def Let_def)

text \<open>
  Claim C9. After \<^verbatim>\<open>mobile_dns_init\<close>, \<^verbatim>\<open>mobile_dns_query_send\<close> for the host \<open>a\<close> sends a
  query with QTYPE A and leaves the adapter \<open>ex_adapter\<close>, whose type is A. The resolver
  answers with \<open>resp_a_len3\<close>, whose only record has type A but RDLENGTH 3 and is skipped by
  the filter. \<^verbatim>\<open>mobile_dns_query_recv\<close> returns 1 (success) and has copied no byte to
  \<^verbatim>\<open>ip\<close>.
\<close>

theorem send_recv_success_without_address:
  "mobile_dns_query_send (mobile_dns_init ex_adapter_ffff) True [0x61] =
     \<lparr>send_ret = True, send_adapter = ex_adapter,
      send_datagram = Some ([0, 1, 1, 0, 0, 1, 0, 0, 0, 0, 0, 0, 1, 0x61, 0, 0, 1, 0, 1],
                            ex_resolver),
      send_closed = False\<rparr> \<and>
   dns_type (dns ex_adapter) = DNS_QTYPE_A \<and>
   mobile_dns_query_recv ex_adapter (Sock_Datagram resp_a_len3 ex_resolver) =
     Some (1, ex_adapter\<lparr>dns := ex_dns\<lparr>buffer := resp_a_len3 @ replicate 6 0,
                                         buffer_len := 34\<rparr>\<rparr>, None)"
  by code_simp

end
